theory Spec2Isabelle
  imports Main "HOL-Library.Char_ord"
begin

section \<open>JavaScript strings\<close>

text \<open>
  A JavaScript string is a sequence of UTF-16 code units. This development covers the
  strings all of whose code units are below 256: a \<^typ>\<open>char\<close> stands for the code unit
  of the same value (ASCII and the Latin-1 supplement). The built-in operations of
  \<^verbatim>\<open>String.prototype\<close> that \<^verbatim>\<open>backend/server.js\<close> calls are written out below
  for such strings.
\<close>

definition isWhiteSpace :: "char \<Rightarrow> bool" where
  \<comment> \<open>what \<^verbatim>\<open>trim\<close> strips: TAB, LF, VT, FF, CR, SP and NBSP\<close>
  "isWhiteSpace c =
     (c = CHR 0x09 \<or> c = CHR 0x0A \<or> c = CHR 0x0B \<or> c = CHR 0x0C \<or> c = CHR 0x0D \<or>
      c = CHR 0x20 \<or> c = CHR 0xA0)"

definition trim :: "string \<Rightarrow> string" where
  "trim s = rev (dropWhile isWhiteSpace (rev (dropWhile isWhiteSpace s)))"

definition toLowerCase_unit :: "char \<Rightarrow> char" where
  \<comment> \<open>A-Z, and the Latin-1 capitals U+00C0..U+00DE without the multiplication sign\<close>
  "toLowerCase_unit c =
     (let n = (of_char c :: nat)
      in if (65 \<le> n \<and> n \<le> 90) \<or> (192 \<le> n \<and> n \<le> 222 \<and> n \<noteq> 215)
         then char_of (n + 32) else c)"

definition toLowerCase :: "string \<Rightarrow> string" where
  "toLowerCase s = map toLowerCase_unit s"

definition startsWith :: "string \<Rightarrow> string \<Rightarrow> bool" where
  "startsWith s p = (take (length p) s = p)"

definition endsWith :: "string \<Rightarrow> string \<Rightarrow> bool" where
  "endsWith s p = (length p \<le> length s \<and> drop (length s - length p) s = p)"

fun indexOf :: "string \<Rightarrow> string \<Rightarrow> int" where
  "indexOf [] p = (if p = [] then 0 else - 1)"
| "indexOf (c # cs) p =
     (if startsWith (c # cs) p then 0
      else (let r = indexOf cs p in if r = - 1 then - 1 else r + 1))"

fun lastIndexOf :: "string \<Rightarrow> string \<Rightarrow> int" where
  "lastIndexOf [] p = (if p = [] then 0 else - 1)"
| "lastIndexOf (c # cs) p =
     (let r = lastIndexOf cs p
      in if r \<noteq> - 1 then r + 1 else if startsWith (c # cs) p then 0 else - 1)"

definition slice :: "string \<Rightarrow> int \<Rightarrow> int \<Rightarrow> string" where
  \<comment> \<open>\<^verbatim>\<open>s.slice(start, end)\<close>: negative arguments count from the end, both are clamped\<close>
  "slice s start end =
     (let len = int (length s);
          from = (if start < 0 then max (len + start) 0 else min start len);
          to = (if end < 0 then max (len + end) 0 else min end len)
      in take (nat (to - from)) (drop (nat from) s))"

definition slice_from :: "string \<Rightarrow> int \<Rightarrow> string" where
  \<comment> \<open>\<^verbatim>\<open>s.slice(start)\<close>\<close>
  "slice_from s start = slice s start (int (length s))"

section \<open>Slugs\<close>

definition is_az09 :: "char \<Rightarrow> bool" where
  \<comment> \<open>the character class \<^verbatim>\<open>[a-z0-9]\<close>\<close>
  "is_az09 c = ((CHR ''a'' \<le> c \<and> c \<le> CHR ''z'') \<or> (CHR ''0'' \<le> c \<and> c \<le> CHR ''9''))"

function replace_non_az09_runs :: "string \<Rightarrow> string" where
  \<comment> \<open>\<^verbatim>\<open>.replace(/[^a-z0-9]+/g, '-')\<close>: the scan emits one hyphen for each greedy match\<close>
  "replace_non_az09_runs [] = []"
| "replace_non_az09_runs (c # cs) =
     (if is_az09 c then c # replace_non_az09_runs cs
      else CHR ''-'' # replace_non_az09_runs (dropWhile (\<lambda>d. \<not> is_az09 d) cs))"
  by pat_completeness auto
termination
  by (relation "measure length") (auto simp: le_imp_less_Suc length_dropWhile_le)

fun remove_edge_hyphens :: "bool \<Rightarrow> string \<Rightarrow> string" where
  \<comment> \<open>\<^verbatim>\<open>.replace(/^-|-$/g, '')\<close>: the flag says whether the scan stands at index 0\<close>
  "remove_edge_hyphens at_start [] = []"
| "remove_edge_hyphens at_start (c # cs) =
     (if c = CHR ''-'' \<and> (at_start \<or> cs = []) then remove_edge_hyphens False cs
      else c # remove_edge_hyphens False cs)"

definition deploy_slug :: "string \<Rightarrow> string" where
  \<comment> \<open>server.js line 377\<close>
  "deploy_slug name = remove_edge_hyphens True (replace_non_az09_runs (toLowerCase name))"

definition deploy_url :: "string \<Rightarrow> string" where
  \<comment> \<open>server.js line 378\<close>
  "deploy_url slug = ''https://'' @ slug @ ''.netlify.app''"

definition download_slug :: "string option \<Rightarrow> string" where
  \<comment> \<open>server.js line 358; the argument is \<^verbatim>\<open>smeRows[0]?.name\<close>, \<open>None\<close> when the row is absent\<close>
  "download_slug name =
     replace_non_az09_runs
       (toLowerCase (case name of None \<Rightarrow> ''website'' | Some n \<Rightarrow> if n = [] then ''website'' else n))"

text \<open>
  The slug as the specification words it: the maximal runs of \<^verbatim>\<open>[a-z0-9]\<close> of the
  lowercased name, joined by single hyphens.
\<close>

function az09_runs :: "string \<Rightarrow> string list" where
  "az09_runs [] = []"
| "az09_runs (c # cs) =
     (if is_az09 c then (c # takeWhile is_az09 cs) # az09_runs (dropWhile is_az09 cs)
      else az09_runs cs)"
  by pat_completeness auto
termination
  by (relation "measure length") (auto simp: le_imp_less_Suc length_dropWhile_le)

fun join_hyphen :: "string list \<Rightarrow> string" where
  "join_hyphen [] = []"
| "join_hyphen [w] = w"
| "join_hyphen (w # v # ws) = w @ CHR ''-'' # join_hyphen (v # ws)"

definition spec_slug :: "string \<Rightarrow> string" where
  "spec_slug name = join_hyphen (az09_runs (toLowerCase name))"

section \<open>Cleaning the generated HTML\<close>

definition strip_html_fence_open :: "string \<Rightarrow> string" where
  \<comment> \<open>\<^verbatim>\<open>.replace(/^```html?\n?/i, '')\<close>\<close>
  "strip_html_fence_open s =
     (if startsWith s ''```'' \<and> startsWith (toLowerCase (drop 3 s)) ''htm'' then
        (let r1 = drop 6 s;
             r2 = (if startsWith (toLowerCase r1) ''l'' then drop 1 r1 else r1)
         in if startsWith r2 ''\<newline>'' then drop 1 r2 else r2)
      else s)"

definition strip_fence_open :: "string \<Rightarrow> string" where
  \<comment> \<open>\<^verbatim>\<open>.replace(/^```\n?/, '')\<close>\<close>
  "strip_fence_open s =
     (if startsWith s ''```'' then
        (let r = drop 3 s in if startsWith r ''\<newline>'' then drop 1 r else r)
      else s)"

definition strip_fence_close :: "string \<Rightarrow> string" where
  \<comment> \<open>\<^verbatim>\<open>.replace(/\n?```$/, '')\<close>: without the m flag, \<^verbatim>\<open>$\<close> is the end of the input\<close>
  "strip_fence_close s =
     (if endsWith s ''\<newline>```'' then take (length s - 4) s
      else if endsWith s ''```'' then take (length s - 3) s
      else s)"

definition extractHtmlDocument :: "string \<Rightarrow> string" where
  \<comment> \<open>server.js lines 294 to 298, inline in the build-website handler\<close>
  "extractHtmlDocument raw =
     (let html = trim (strip_fence_close (strip_fence_open (strip_html_fence_open raw)))
      in if \<not> startsWith (toLowerCase html) ''<!doctype'' \<and>
            \<not> startsWith (toLowerCase html) ''<html''
         then (let start = indexOf html ''<!DOCTYPE''
               in if start > - 1 then slice_from html start else html)
         else html)"

section \<open>JSON texts\<close>

text \<open>
  \<^verbatim>\<open>JSON.parse\<close> of the runtime, by the JSON grammar (ECMA-404). A value keeps the
  source characters of a number and of a string (between its quotes, escapes checked
  and not decoded), and the members of an object in the order of the text: what the
  handlers need of a parsed text is whether it is one, and the shape of the value.
\<close>

datatype json =
    JNull
  | JBool bool
  | JNumber string
  | JString string
  | JArray "json list"
  | JObject "(string \<times> json) list"

definition is_json_ws :: "char \<Rightarrow> bool" where
  "is_json_ws c = (c = CHR 0x20 \<or> c = CHR 0x09 \<or> c = CHR 0x0A \<or> c = CHR 0x0D)"

definition skip_ws :: "string \<Rightarrow> string" where
  "skip_ws s = dropWhile is_json_ws s"

definition is_digit :: "char \<Rightarrow> bool" where
  "is_digit c = (CHR ''0'' \<le> c \<and> c \<le> CHR ''9'')"

definition is_hex :: "char \<Rightarrow> bool" where
  "is_hex c =
     (is_digit c \<or> (CHR ''a'' \<le> c \<and> c \<le> CHR ''f'') \<or> (CHR ''A'' \<le> c \<and> c \<le> CHR ''F''))"

definition digits1 :: "string \<Rightarrow> string option" where
  \<comment> \<open>the digits at the head, at least one\<close>
  "digits1 s = (let ds = takeWhile is_digit s in if ds = [] then None else Some ds)"

definition number_lexeme :: "string \<Rightarrow> string option" where
  \<comment> \<open>the number at the head: sign, integer part, fraction, exponent\<close>
  "number_lexeme s =
     (let sign = (if startsWith s ''-'' then ''-'' else []);
          s1 = drop (length sign) s
      in case (case s1 of
                 [] \<Rightarrow> None
               | c # r \<Rightarrow> if c = CHR ''0'' then Some ''0''
                          else if is_digit c then Some (c # takeWhile is_digit r)
                          else None) of
           None \<Rightarrow> None
         | Some int_part \<Rightarrow>
            (let s2 = drop (length int_part) s1
             in case (if startsWith s2 ''.''
                      then map_option (\<lambda>ds. CHR ''.'' # ds) (digits1 (drop 1 s2))
                      else Some []) of
                  None \<Rightarrow> None
                | Some frac \<Rightarrow>
                   (let s3 = drop (length frac) s2
                    in case (case s3 of
                               [] \<Rightarrow> Some []
                             | e # r \<Rightarrow>
                                if e = CHR ''e'' \<or> e = CHR ''E'' then
                                  (let sg = (if startsWith r ''+'' \<or> startsWith r ''-''
                                             then take 1 r else [])
                                   in map_option (\<lambda>ds. e # sg @ ds) (digits1 (drop (length sg) r)))
                                else Some []) of
                         None \<Rightarrow> None
                       | Some ex \<Rightarrow> Some (sign @ int_part @ frac @ ex))))"

function string_lexeme :: "string \<Rightarrow> string option" where
  \<comment> \<open>after the opening quote: the characters up to the closing quote\<close>
  "string_lexeme [] = None"
| "string_lexeme (c # cs) =
     (if c = CHR 0x22 then Some []
      else if c = CHR 0x5C then
        (case cs of
           [] \<Rightarrow> None
         | e # r \<Rightarrow>
            if e \<in> set [CHR 0x22, CHR 0x5C, CHR ''/'', CHR ''b'', CHR ''f'', CHR ''n'', CHR ''r'', CHR ''t'']
            then map_option (\<lambda>b. c # e # b) (string_lexeme r)
            else if e = CHR ''u'' \<and> 4 \<le> length r \<and> list_all is_hex (take 4 r)
            then map_option (\<lambda>b. c # e # take 4 r @ b) (string_lexeme (drop 4 r))
            else None)
      else if c < CHR 0x20 then None
      else map_option (\<lambda>b. c # b) (string_lexeme cs))"
  by pat_completeness auto
termination
  by (relation "measure length") auto

lemma skip_ws_length: "length (skip_ws s) \<le> length s"
  by (simp add: skip_ws_def length_dropWhile_le)

lemma skip_ws_Cons: "skip_ws s = c # r \<Longrightarrow> length r < length s"
  using skip_ws_length[of s] by simp

text \<open>
  The three parsers take a text without leading white space and give the value with the
  rest of the text. After a nested value the rest is checked to be shorter than the
  text, which makes the recursion well-founded; \<open>parse_value_shorter\<close> below shows
  that the check never fails.
\<close>

function parse_value :: "string \<Rightarrow> (json \<times> string) option"
  and parse_elements :: "string \<Rightarrow> (json list \<times> string) option"
  and parse_members :: "string \<Rightarrow> ((string \<times> json) list \<times> string) option"
where
  "parse_value s =
     (case s of
        [] \<Rightarrow> None
      | c # cs \<Rightarrow>
         if c = CHR ''['' then
           (case skip_ws cs of
              [] \<Rightarrow> None
            | d # r \<Rightarrow> if d = CHR '']'' then Some (JArray [], r)
                       else map_option (\<lambda>(vs, r'). (JArray vs, r')) (parse_elements (d # r)))
         else if c = CHR ''{'' then
           (case skip_ws cs of
              [] \<Rightarrow> None
            | d # r \<Rightarrow> if d = CHR ''}'' then Some (JObject [], r)
                       else map_option (\<lambda>(ms, r'). (JObject ms, r')) (parse_members (d # r)))
         else if c = CHR 0x22 then
           map_option (\<lambda>b. (JString b, drop (Suc (length b)) cs)) (string_lexeme cs)
         else if startsWith s ''true'' then Some (JBool True, drop 4 s)
         else if startsWith s ''false'' then Some (JBool False, drop 5 s)
         else if startsWith s ''null'' then Some (JNull, drop 4 s)
         else map_option (\<lambda>n. (JNumber n, drop (length n) s)) (number_lexeme s))"
| "parse_elements s =
     (case parse_value s of
        None \<Rightarrow> None
      | Some (v, r) \<Rightarrow>
         if length r < length s then
           (case skip_ws r of
              [] \<Rightarrow> None
            | d # r1 \<Rightarrow>
               if d = CHR '','' then map_option (\<lambda>(vs, r'). (v # vs, r')) (parse_elements (skip_ws r1))
               else if d = CHR '']'' then Some ([v], r1)
               else None)
         else None)"
| "parse_members s =
     (case s of
        [] \<Rightarrow> None
      | q # cs \<Rightarrow>
         if q = CHR 0x22 then
           (case string_lexeme cs of
              None \<Rightarrow> None
            | Some key \<Rightarrow>
               (case skip_ws (drop (Suc (length key)) cs) of
                  [] \<Rightarrow> None
                | d # r1 \<Rightarrow>
                   if d = CHR '':'' then
                     (case parse_value (skip_ws r1) of
                        None \<Rightarrow> None
                      | Some (v, r2) \<Rightarrow>
                         if length r2 < length s then
                           (case skip_ws r2 of
                              [] \<Rightarrow> None
                            | d2 # r3 \<Rightarrow>
                               if d2 = CHR '','' then
                                 map_option (\<lambda>(ms, r'). ((key, v) # ms, r')) (parse_members (skip_ws r3))
                               else if d2 = CHR ''}'' then Some ([(key, v)], r3)
                               else None)
                         else None)
                   else None))
         else None)"
  by pat_completeness auto
termination
  apply (relation "measure (\<lambda>x. case x of Inl s \<Rightarrow> 2 * length s
                                         | Inr (Inl s) \<Rightarrow> 2 * length s + 1
                                         | Inr (Inr s) \<Rightarrow> 2 * length s + 1)")
  apply simp_all
  subgoal for s x21 x22 x21a x22a
    using skip_ws_Cons[of x22 x21a x22a] by simp
  subgoal for s x21 x22 x21a x22a
    using skip_ws_Cons[of x22 x21a x22a] by simp
  subgoal for s x2 x y x21 x22
    using skip_ws_Cons[of y "CHR '',''" x22] skip_ws_length[of x22] by simp
  subgoal for s x21 x22 x2 x21a x22a
    using skip_ws_Cons[of "drop (Suc (length x2)) x22" "CHR '':''" x22a] skip_ws_length[of x22a]
    by simp
  subgoal for s x21 x22 x2 x21a x22a x2a x y x21b x22b
    using skip_ws_Cons[of y "CHR '',''" x22b] skip_ws_length[of x22b] by simp
  done

declare parse_value.simps [simp del] parse_elements.simps [simp del] parse_members.simps [simp del]

definition JSON_parse :: "string \<Rightarrow> json option" where
  \<comment> \<open>\<open>None\<close> when \<^verbatim>\<open>JSON.parse\<close> throws a SyntaxError\<close>
  "JSON_parse text =
     (case parse_value (skip_ws text) of
        None \<Rightarrow> None
      | Some (v, r) \<Rightarrow> if skip_ws r = [] then Some v else None)"

section \<open>Extracting the JSON array\<close>

function strip_json_fences :: "string \<Rightarrow> string" where
  \<comment> \<open>\<^verbatim>\<open>.replace(/```json\n?|\n?```/g, '')\<close>: at each index the first alternative is tried
      first, a match is dropped and the scan goes on behind it\<close>
  "strip_json_fences [] = []"
| "strip_json_fences (c # cs) =
     (if startsWith (c # cs) ''```json'' then
        strip_json_fences
          (let r = drop 7 (c # cs) in if startsWith r ''\<newline>'' then drop 1 r else r)
      else if startsWith (c # cs) ''\<newline>```'' then strip_json_fences (drop 4 (c # cs))
      else if startsWith (c # cs) ''```'' then strip_json_fences (drop 3 (c # cs))
      else c # strip_json_fences cs)"
  by pat_completeness auto
termination
  by (relation "measure length") (auto simp: Let_def)

function strip_fences :: "string \<Rightarrow> string" where
  \<comment> \<open>\<^verbatim>\<open>.replace(/```\n?/g, '')\<close>\<close>
  "strip_fences [] = []"
| "strip_fences (c # cs) =
     (if startsWith (c # cs) ''```'' then
        strip_fences
          (let r = drop 3 (c # cs) in if startsWith r ''\<newline>'' then drop 1 r else r)
      else c # strip_fences cs)"
  by pat_completeness auto
termination
  by (relation "measure length") (auto simp: Let_def)

definition cleaned :: "string \<Rightarrow> string" where
  \<comment> \<open>server.js line 114\<close>
  "cleaned text = trim (strip_fences (strip_json_fences text))"

datatype error = Could_not_find_array | Syntax_error | Provider_error

definition parseJsonArray :: "string \<Rightarrow> error + json" where
  \<comment> \<open>server.js lines 113 to 119\<close>
  "parseJsonArray text =
     (let c = cleaned text;
          start = indexOf c ''['';
          end = lastIndexOf c '']''
      in if start = - 1 \<or> end = - 1 then Inl Could_not_find_array
         else case JSON_parse (slice c start (end + 1)) of
                None \<Rightarrow> Inl Syntax_error
              | Some v \<Rightarrow> Inr v)"

definition bracket_span :: "string \<Rightarrow> string" where
  \<comment> \<open>in the words of the specification: from the first \<^verbatim>\<open>[\<close> to the last \<^verbatim>\<open>]\<close>, both
      included; empty when no \<^verbatim>\<open>]\<close> stands behind the first \<^verbatim>\<open>[\<close>\<close>
  "bracket_span s =
     rev (dropWhile (\<lambda>c. c \<noteq> CHR '']'') (rev (dropWhile (\<lambda>c. c \<noteq> CHR ''['') s)))"

section \<open>The discovery driver\<close>

text \<open>
  A response of the model is a list of content blocks. The provider is outside the
  program: \<^verbatim>\<open>anthropic.messages.create\<close> is a function from the request to the content of
  the response, \<open>None\<close> when the call throws. The two requests of the driver differ, so
  a function can answer them differently. The driver gives its result together with the
  requests it has issued, in order. The system instruction of a request is kept by its
  place in the source and the country name it interpolates (the one of line 102 holds
  a dash beyond the code units covered here); the model name is the same constant in
  both requests and is left out.
\<close>

datatype block = Text_block string | Tool_use_block string | Other_block string

datatype tool_result = Tool_result string string

datatype message =
    User_text string
  | Assistant_content "block list"
  | User_tool_results "tool_result list"

datatype system_prompt = Researcher_system string | Final_answer_system string

record request =
  req_max_tokens :: nat
  req_tools :: bool
  req_system :: system_prompt
  req_messages :: "message list"

fun is_tool_use :: "block \<Rightarrow> bool" where
  "is_tool_use (Tool_use_block i) = True"
| "is_tool_use b = False"

fun is_text :: "block \<Rightarrow> bool" where
  "is_text (Text_block t) = True"
| "is_text b = False"

fun block_id :: "block \<Rightarrow> string" where
  "block_id (Tool_use_block i) = i"
| "block_id b = []"

definition first_text :: "block list \<Rightarrow> string" where
  \<comment> \<open>\<^verbatim>\<open>content.find(b => b.type === 'text')?.text || ''\<close>\<close>
  "first_text content = (case find is_text content of Some (Text_block t) \<Rightarrow> t | _ \<Rightarrow> [])"

definition search_prompt :: "string \<Rightarrow> string" where
  \<comment> \<open>server.js lines 37 to 72: the user turn of the first request\<close>
  "search_prompt countryName =
     ''Search for real small businesses in '' @
     countryName @
     '' that operate only on social media (Facebook, Instagram) without a website. \<newline>'' @
     ''\<newline>'' @
     ''Search for:\<newline>'' @
     ''1. \"'' @
     countryName @
     '' small business facebook page handmade\"\<newline>'' @
     ''2. \"'' @
     countryName @
     '' local shop instagram seller\"\<newline>'' @
     ''3. \"'' @
     countryName @
     '' homemade food clothing crafts facebook\"\<newline>'' @
     ''4. \"site:facebook.com '' @
     countryName @
     '' small business\"\<newline>'' @
     ''\<newline>'' @
     ''Find 8-10 real or highly realistic businesses based on what you discover. Then return ONLY this JSON array (no markdown, no explanation):\<newline>'' @
     ''\<newline>'' @
     ''[\<newline>'' @
     ''  {\<newline>'' @
     ''    \"name\": \"Business name\",\<newline>'' @
     ''    \"industry\": \"Food & Beverage | Fashion | Beauty | Crafts | Education | Home Goods | Agriculture | Services\",\<newline>'' @
     ''    \"productType\": \"specific product description\",\<newline>'' @
     ''    \"description\": \"2-3 realistic sentences about this business\",\<newline>'' @
     ''    \"location\": \"City, '' @
     countryName @
     ''\",\<newline>'' @
     ''    \"foundedYear\": 2019,\<newline>'' @
     ''    \"employeeCount\": \"1-5\",\<newline>'' @
     ''    \"monthlyRevenue\": \"$500-$2000\",\<newline>'' @
     ''    \"socialMedia\": {\<newline>'' @
     ''      \"facebook\": \"https://facebook.com/pagename\",\<newline>'' @
     ''      \"instagram\": \"https://instagram.com/handle\",\<newline>'' @
     ''      \"whatsapp\": \"+1234567890\"\<newline>'' @
     ''    },\<newline>'' @
     ''    \"contactEmail\": \"owner@gmail.com\",\<newline>'' @
     ''    \"ownerName\": \"Realistic local name\",\<newline>'' @
     ''    \"followers\": { \"facebook\": 1500, \"instagram\": 900 },\<newline>'' @
     ''    \"products\": [\"product 1\", \"product 2\", \"product 3\"],\<newline>'' @
     ''    \"priceRange\": \"$5-$40\",\<newline>'' @
     ''    \"tags\": [\"handmade\", \"local\"],\<newline>'' @
     ''    \"noWebsiteReason\": \"Short realistic reason\",\<newline>'' @
     ''    \"opportunityScore\": 82,\<newline>'' @
     ''    \"languages\": [\"local language\", \"English\"]\<newline>'' @
     ''  }\<newline>'' @
     '']''"

definition follow_up_prompt :: "string \<Rightarrow> string" where
  \<comment> \<open>server.js line 80: the user turn the second request starts with\<close>
  "follow_up_prompt countryName =
     ''Search for real small businesses in '' @
     countryName @
     '' that operate only on social media (Facebook, Instagram) without a website. Search for: \"'' @
     countryName @
     '' small business facebook page handmade\", \"'' @
     countryName @
     '' local shop instagram seller\", \"'' @
     countryName @
     '' homemade food clothing crafts facebook\". Find 8-10 businesses then return ONLY a JSON array.''"

definition searchSMEsWithWebSearch ::
  "(request \<Rightarrow> block list option) \<Rightarrow> string \<Rightarrow> (error + json) \<times> request list" where
  \<comment> \<open>server.js lines 28 to 111\<close>
  "searchSMEsWithWebSearch create countryName =
     (let request1 = \<lparr>req_max_tokens = 8000, req_tools = True,
                       req_system = Researcher_system countryName,
                       req_messages = [User_text (search_prompt countryName)]\<rparr>
      in case create request1 of
           None \<Rightarrow> (Inl Provider_error, [request1])
         | Some content \<Rightarrow>
            (let messages = [User_text (follow_up_prompt countryName), Assistant_content content];
                 hasToolUse = list_ex is_tool_use content;
                 textBlock = find is_text content
             in if hasToolUse \<or> textBlock = None then
                  (let toolResults =
                         map (\<lambda>b. Tool_result (block_id b) ''Search results retrieved.'')
                           (filter is_tool_use content);
                       messages2 = (if length toolResults > 0
                                    then messages @ [User_tool_results toolResults] else messages);
                       request2 = \<lparr>req_max_tokens = 8000, req_tools = False,
                                    req_system = Final_answer_system countryName,
                                    req_messages = messages2\<rparr>
                   in case create request2 of
                        None \<Rightarrow> (Inl Provider_error, [request1, request2])
                      | Some finalContent \<Rightarrow>
                         (parseJsonArray (first_text finalContent), [request1, request2]))
                else (parseJsonArray (first_text content), [request1])))"

text \<open>
  The notions of the specification: a first response is incomplete when it holds a tool
  invocation or no plain text; the acknowledgments are one synthetic tool result for
  each tool invocation of the first response, sent as one user message.
\<close>

definition incomplete :: "block list \<Rightarrow> bool" where
  "incomplete content =
     ((\<exists>b\<in>set content. is_tool_use b) \<or> \<not> (\<exists>b\<in>set content. is_text b))"

fun tool_use_ids :: "block list \<Rightarrow> string list" where
  \<comment> \<open>the identifiers of the tool invocations of a response, in order\<close>
  "tool_use_ids [] = []"
| "tool_use_ids (Tool_use_block i # bs) = i # tool_use_ids bs"
| "tool_use_ids (b # bs) = tool_use_ids bs"

definition acknowledgments :: "block list \<Rightarrow> message list" where
  "acknowledgments content =
     (if tool_use_ids content = [] then []
      else [User_tool_results
              (map (\<lambda>i. Tool_result i ''Search results retrieved.'') (tool_use_ids content))])"

section \<open>The relational store\<close>

text \<open>
  The tables \<^verbatim>\<open>smes\<close> and \<^verbatim>\<open>websites\<close> of \<^verbatim>\<open>db/init.js\<close>, as lists of rows. Of
  an SME the columns kept are those that the build, deploy and download handlers read
  or write; the descriptive columns only feed the prompt.
\<close>

type_synonym uuid = string
type_synonym timestamp = nat

datatype status = Discovered | Website_built | Deployed | Email_ready

record sme_row =
  sme_id :: uuid
  sme_name :: string
  sme_status :: status
  sme_deployed_url :: "string option"

record website_row =
  ws_id :: uuid
  ws_sme_id :: uuid
  ws_html :: string
  ws_deployed_url :: "string option"
  ws_slug :: "string option"
  ws_built_at :: "timestamp option"
  ws_deployed_at :: "timestamp option"

record db =
  smes :: "sme_row list"
  websites :: "website_row list"

definition select_sme :: "db \<Rightarrow> uuid \<Rightarrow> sme_row list" where
  \<comment> \<open>\<^verbatim>\<open>SELECT * FROM smes WHERE id = $1\<close>\<close>
  "select_sme d k = filter (\<lambda>r. sme_id r = k) (smes d)"

definition select_website :: "db \<Rightarrow> uuid \<Rightarrow> website_row list" where
  \<comment> \<open>\<^verbatim>\<open>SELECT ... FROM websites WHERE sme_id = $1\<close>\<close>
  "select_website d k = filter (\<lambda>r. ws_sme_id r = k) (websites d)"

definition rebuilt :: "string \<Rightarrow> timestamp \<Rightarrow> website_row \<Rightarrow> website_row" where
  \<comment> \<open>\<^verbatim>\<open>DO UPDATE SET html = $2, built_at = NOW(), deployed_url = NULL, deployed_at = NULL\<close>\<close>
  "rebuilt html t r =
     r\<lparr>ws_html := html, ws_built_at := Some t, ws_deployed_url := None, ws_deployed_at := None\<rparr>"

definition upsert_website :: "uuid \<Rightarrow> timestamp \<Rightarrow> uuid \<Rightarrow> string \<Rightarrow> db \<Rightarrow> db option" where
  \<comment> \<open>server.js lines 300 to 305: \<^verbatim>\<open>INSERT INTO websites (sme_id, html) ... ON CONFLICT (sme_id)
      DO UPDATE\<close>; \<open>None\<close> when the inserted row breaks the foreign key to \<^verbatim>\<open>smes\<close>\<close>
  "upsert_website fresh t k html d =
     (if list_ex (\<lambda>r. ws_sme_id r = k) (websites d)
      then Some (d\<lparr>websites := map (\<lambda>r. if ws_sme_id r = k then rebuilt html t r else r) (websites d)\<rparr>)
      else if list_ex (\<lambda>s. sme_id s = k) (smes d)
      then Some (d\<lparr>websites := websites d @
             [\<lparr>ws_id = fresh, ws_sme_id = k, ws_html = html, ws_deployed_url = None,
               ws_slug = None, ws_built_at = Some t, ws_deployed_at = None\<rparr>]\<rparr>)
      else None)"

definition update_sme_built :: "uuid \<Rightarrow> db \<Rightarrow> db" where
  \<comment> \<open>\<^verbatim>\<open>UPDATE smes SET status = 'website_built', deployed_url = NULL WHERE id = $1\<close>\<close>
  "update_sme_built k d =
     d\<lparr>smes := map (\<lambda>s. if sme_id s = k
                          then s\<lparr>sme_status := Website_built, sme_deployed_url := None\<rparr> else s) (smes d)\<rparr>"

definition update_website_deployed :: "string \<Rightarrow> string \<Rightarrow> timestamp \<Rightarrow> uuid \<Rightarrow> db \<Rightarrow> db" where
  \<comment> \<open>\<^verbatim>\<open>UPDATE websites SET deployed_url = $1, slug = $2, deployed_at = NOW() WHERE sme_id = $3\<close>\<close>
  "update_website_deployed url slug t k d =
     d\<lparr>websites := map (\<lambda>r. if ws_sme_id r = k
                              then r\<lparr>ws_deployed_url := Some url, ws_slug := Some slug,
                                     ws_deployed_at := Some t\<rparr> else r) (websites d)\<rparr>"

definition update_sme_deployed :: "string \<Rightarrow> uuid \<Rightarrow> db \<Rightarrow> db" where
  \<comment> \<open>\<^verbatim>\<open>UPDATE smes SET status = 'deployed', deployed_url = $1 WHERE id = $2\<close>\<close>
  "update_sme_deployed url k d =
     d\<lparr>smes := map (\<lambda>s. if sme_id s = k
                          then s\<lparr>sme_status := Deployed, sme_deployed_url := Some url\<rparr> else s) (smes d)\<rparr>"

definition unique_sme_id :: "db \<Rightarrow> bool" where
  \<comment> \<open>the constraint \<^verbatim>\<open>websites_sme_id_key UNIQUE (sme_id)\<close>\<close>
  "unique_sme_id d = distinct (map ws_sme_id (websites d))"

section \<open>The handlers\<close>

text \<open>
  What a request cannot decide by itself is its environment: which of its
  \<^verbatim>\<open>pool.query\<close> calls reject (numbered from 0 in the order the handler issues them), the
  value of \<^verbatim>\<open>NOW()\<close> at each of them, and the identifier \<^verbatim>\<open>gen_random_uuid()\<close> gives a
  new row. Every statement runs in its own implicit transaction: a statement that
  rejects changes nothing, one that resolves is committed at once.
\<close>

record env =
  rejects :: "nat \<Rightarrow> bool"
  clock :: "nat \<Rightarrow> timestamp"
  fresh_id :: uuid

datatype response =
    Ok_true
  | Ok_deployed string string
  | Error_json nat string
  | Error_text nat string
  | Attachment string string
  | No_response

definition build_website :: "env \<Rightarrow> string option \<Rightarrow> uuid \<Rightarrow> db \<Rightarrow> response \<times> db" where
  \<comment> \<open>server.js lines 254 to 313. \<open>reply\<close> is what \<^verbatim>\<open>callClaude\<close> returns, \<open>None\<close> when it
      throws. The first query stands outside \<^verbatim>\<open>try\<close>: when it rejects, nothing is sent.\<close>
  "build_website e reply smeId d =
     (if rejects e 0 then (No_response, d)
      else case select_sme d smeId of
        [] \<Rightarrow> (Error_json 404 ''SME not found'', d)
      | sme # _ \<Rightarrow>
         (case reply of
            None \<Rightarrow> (Error_json 500 ''Website builder failed'', d)
          | Some raw \<Rightarrow>
             (let html = extractHtmlDocument raw
              in if rejects e 1 then (Error_json 500 ''Website builder failed'', d)
                 else (case upsert_website (fresh_id e) (clock e 1) (sme_id sme) html d of
                   None \<Rightarrow> (Error_json 500 ''Website builder failed'', d)
                 | Some d1 \<Rightarrow>
                    if rejects e 2 then (Error_json 500 ''Website builder failed'', d1)
                    else (Ok_true, update_sme_built (sme_id sme) d1)))))"

definition deploy :: "env \<Rightarrow> uuid \<Rightarrow> db \<Rightarrow> response \<times> db" where
  \<comment> \<open>server.js lines 369 to 390; the two reads stand outside \<^verbatim>\<open>try\<close>\<close>
  "deploy e smeId d =
     (if rejects e 0 then (No_response, d)
      else case select_sme d smeId of
        [] \<Rightarrow> (Error_json 404 ''SME not found'', d)
      | sme # _ \<Rightarrow>
         (if rejects e 1 then (No_response, d)
          else (case select_website d smeId of
            [] \<Rightarrow> (Error_json 400 ''Build website first'', d)
          | _ # _ \<Rightarrow>
             (let slug = deploy_slug (sme_name sme);
                  url = deploy_url slug
              in if rejects e 2 then (Error_json 500 ''Deploy failed'', d)
                 else (let d1 = update_website_deployed url slug (clock e 2) (sme_id sme) d
                       in if rejects e 3 then (Error_json 500 ''Deploy failed'', d1)
                          else (Ok_deployed url slug, update_sme_deployed url (sme_id sme) d1))))))"

definition website_download :: "env \<Rightarrow> uuid \<Rightarrow> db \<Rightarrow> response" where
  \<comment> \<open>server.js lines 353 to 365; \<open>Attachment\<close> carries the file name of the
      \<^verbatim>\<open>Content-Disposition\<close> header and the body\<close>
  "website_download e smeId d =
     (if rejects e 0 \<or> rejects e 1 then Error_json 500 ''DB error''
      else case select_website d smeId of
        [] \<Rightarrow> Error_text 404 ''Not found''
      | w # _ \<Rightarrow>
         (let slug = download_slug (case select_sme d smeId of [] \<Rightarrow> None | s # _ \<Rightarrow> Some (sme_name s))
          in Attachment (slug @ ''.html'') (ws_html w)))"

subsection \<open>Sample environments and stores\<close>

definition quiet :: "timestamp \<Rightarrow> uuid \<Rightarrow> env" where
  \<comment> \<open>no query rejects\<close>
  "quiet t f = \<lparr>rejects = (\<lambda>n. False), clock = (\<lambda>n. t), fresh_id = f\<rparr>"

definition failing_at :: "nat \<Rightarrow> timestamp \<Rightarrow> uuid \<Rightarrow> env" where
  \<comment> \<open>exactly the query number \<open>i\<close> rejects\<close>
  "failing_at i t f = \<lparr>rejects = (\<lambda>n. n = i), clock = (\<lambda>n. t), fresh_id = f\<rparr>"

definition store_discovered :: db where
  \<comment> \<open>one SME, nothing built\<close>
  "store_discovered =
     \<lparr>smes = [\<lparr>sme_id = ''s1'', sme_name = ''Anna Bakes'', sme_status = Discovered,
               sme_deployed_url = None\<rparr>],
      websites = []\<rparr>"

definition store_deployed :: db where
  \<comment> \<open>the same SME after a build at time 1 and a deploy at time 2\<close>
  "store_deployed =
     \<lparr>smes = [\<lparr>sme_id = ''s1'', sme_name = ''Anna Bakes'', sme_status = Deployed,
               sme_deployed_url = Some ''https://anna-bakes.netlify.app''\<rparr>],
      websites = [\<lparr>ws_id = ''w1'', ws_sme_id = ''s1'', ws_html = ''<html>one</html>'',
                   ws_deployed_url = Some ''https://anna-bakes.netlify.app'',
                   ws_slug = Some ''anna-bakes'', ws_built_at = Some 1,
                   ws_deployed_at = Some 2\<rparr>]\<rparr>"

section \<open>Properties of the slugs\<close>

lemma hyphen_not_az09 [simp]: "\<not> is_az09 (CHR ''-'')"
  by (simp add: is_az09_def)

lemma replace_az09_prefix:
  "\<forall>c\<in>set w. is_az09 c \<Longrightarrow> replace_non_az09_runs (w @ s) = w @ replace_non_az09_runs s"
  by (induction w) auto

lemma remove_False_az09_prefix:
  "\<forall>c\<in>set w. is_az09 c \<Longrightarrow> s \<noteq> [] \<Longrightarrow>
   remove_edge_hyphens False (w @ s) = w @ remove_edge_hyphens False s"
  by (induction w) auto

lemma remove_az09_id: "\<forall>c\<in>set w. is_az09 c \<Longrightarrow> remove_edge_hyphens b w = w"
  by (induction w arbitrary: b) auto

lemma replace_eq_Nil [simp]: "replace_non_az09_runs s = [] \<longleftrightarrow> s = []"
  by (cases s) auto

lemma az09_runs_skip: "az09_runs (dropWhile (\<lambda>d. \<not> is_az09 d) s) = az09_runs s"
  by (induction s) auto

lemma az09_runs_eq_Nil: "az09_runs s = [] \<longleftrightarrow> (\<forall>c\<in>set s. \<not> is_az09 c)"
  by (induction s rule: az09_runs.induct) auto

lemma slug_core:
  "s = [] \<or> is_az09 (hd s) \<Longrightarrow>
   remove_edge_hyphens False (replace_non_az09_runs s) = join_hyphen (az09_runs s)"
proof (induction "length s" arbitrary: s rule: less_induct)
  case less
  show ?case
  proof (cases s)
    case Nil
    then show ?thesis by simp
  next
    case (Cons c cs)
    with less.prems have c: "is_az09 c" by simp
    define w where "w = c # takeWhile is_az09 cs"
    define r where "r = dropWhile is_az09 cs"
    have s: "s = w @ r" by (simp add: w_def r_def Cons)
    have w: "\<forall>x\<in>set w. is_az09 x" using c by (auto simp: w_def dest: set_takeWhileD)
    have runs: "az09_runs s = w # az09_runs r" using c by (simp add: Cons w_def r_def)
    show ?thesis
    proof (cases r)
      case Nil
      have "replace_non_az09_runs s = w"
        using replace_az09_prefix[OF w, of "[]"] s Nil by simp
      moreover have "az09_runs s = [w]" using runs Nil by simp
      ultimately show ?thesis by (simp add: remove_az09_id[OF w])
    next
      case (Cons d ds)
      have d: "\<not> is_az09 d"
        using Cons hd_dropWhile[of is_az09 cs] by (auto simp: r_def)
      define t where "t = dropWhile (\<lambda>d. \<not> is_az09 d) ds"
      have t0: "t = [] \<or> is_az09 (hd t)"
        using hd_dropWhile[of "\<lambda>d. \<not> is_az09 d" ds] by (auto simp: t_def)
      have lt: "length t < length s"
        using length_dropWhile_le[of "\<lambda>d. \<not> is_az09 d" ds] by (simp add: t_def s Cons w_def)
      have IH: "remove_edge_hyphens False (replace_non_az09_runs t) = join_hyphen (az09_runs t)"
        using less.hyps[OF lt t0] .
      have rr: "replace_non_az09_runs r = CHR ''-'' # replace_non_az09_runs t"
        using d by (simp add: Cons t_def)
      have rt: "az09_runs r = az09_runs t"
        using d by (simp add: Cons t_def az09_runs_skip)
      have L: "replace_non_az09_runs s = w @ CHR ''-'' # replace_non_az09_runs t"
        using replace_az09_prefix[OF w, of r] s rr by simp
      have R: "az09_runs s = w # az09_runs t"
        using runs rt by simp
      show ?thesis
      proof (cases t)
        case Nil
        have "remove_edge_hyphens False (w @ [CHR ''-'']) = w"
          using remove_False_az09_prefix[OF w, of "[CHR ''-'']"] by simp
        then show ?thesis by (simp add: L R Nil)
      next
        case (Cons e es)
        with t0 have "az09_runs t \<noteq> []" by (auto simp: az09_runs_eq_Nil)
        then obtain v vs where vv: "az09_runs t = v # vs" by (cases "az09_runs t") auto
        have ne: "replace_non_az09_runs t \<noteq> []" using Cons by simp
        have "remove_edge_hyphens False (w @ CHR ''-'' # replace_non_az09_runs t)
              = w @ CHR ''-'' # remove_edge_hyphens False (replace_non_az09_runs t)"
          using remove_False_az09_prefix[OF w, of "CHR ''-'' # replace_non_az09_runs t"] ne by simp
        then show ?thesis using IH by (simp add: L R vv)
      qed
    qed
  qed
qed

lemma slug_refines:
  "remove_edge_hyphens True (replace_non_az09_runs s) = join_hyphen (az09_runs s)"
proof (cases s)
  case Nil
  then show ?thesis by simp
next
  case (Cons c cs)
  show ?thesis
  proof (cases "is_az09 c")
    case True
    then have "c \<noteq> CHR ''-''" by auto
    then have "remove_edge_hyphens True (replace_non_az09_runs s)
               = remove_edge_hyphens False (replace_non_az09_runs s)"
      using True by (simp add: Cons)
    then show ?thesis
      using slug_core[of s] True
      by (simp add: Cons del: az09_runs.simps replace_non_az09_runs.simps)
  next
    case False
    define t where "t = dropWhile (\<lambda>d. \<not> is_az09 d) cs"
    have t0: "t = [] \<or> is_az09 (hd t)"
      using hd_dropWhile[of "\<lambda>d. \<not> is_az09 d" cs] by (auto simp: t_def)
    have "remove_edge_hyphens True (replace_non_az09_runs s)
          = remove_edge_hyphens False (replace_non_az09_runs t)"
      using False by (simp add: Cons t_def)
    moreover have "az09_runs s = az09_runs t"
      using False by (simp add: Cons t_def az09_runs_skip)
    ultimately show ?thesis using slug_core[OF t0] by simp
  qed
qed

lemma az09_runs_words: "w \<in> set (az09_runs s) \<Longrightarrow> w \<noteq> [] \<and> (\<forall>c\<in>set w. is_az09 c)"
proof (induction s rule: az09_runs.induct)
  case 1
  then show ?case by simp
next
  case (2 c cs)
  show ?case
  proof (cases "is_az09 c")
    case True
    with "2.prems" have "w = c # takeWhile is_az09 cs \<or> w \<in> set (az09_runs (dropWhile is_az09 cs))"
      by simp
    then show ?thesis
    proof
      assume "w = c # takeWhile is_az09 cs"
      then show ?thesis using True set_takeWhileD[of _ is_az09 cs] by auto
    next
      assume "w \<in> set (az09_runs (dropWhile is_az09 cs))"
      then show ?thesis using "2.IH"(1)[OF True] by blast
    qed
  next
    case False
    with "2.prems" have "w \<in> set (az09_runs cs)" by simp
    then show ?thesis using "2.IH"(2)[OF False] by blast
  qed
qed

lemma join_hyphen_edges:
  "ws \<noteq> [] \<Longrightarrow> \<forall>w\<in>set ws. w \<noteq> [] \<and> (\<forall>c\<in>set w. is_az09 c) \<Longrightarrow>
   join_hyphen ws \<noteq> [] \<and> is_az09 (hd (join_hyphen ws)) \<and> is_az09 (last (join_hyphen ws))"
  by (induction ws rule: join_hyphen.induct) auto

lemma spec_slug_edges:
  "join_hyphen (az09_runs s) \<noteq> [] \<Longrightarrow>
   is_az09 (hd (join_hyphen (az09_runs s))) \<and> is_az09 (last (join_hyphen (az09_runs s)))"
  using join_hyphen_edges[of "az09_runs s"] az09_runs_words[of _ s]
  by (cases "az09_runs s = []") auto

lemma replace_last_hyphen:
  "s \<noteq> [] \<Longrightarrow> \<not> is_az09 (last s) \<Longrightarrow> last (replace_non_az09_runs s) = CHR ''-''"
proof (induction s rule: replace_non_az09_runs.induct)
  case 1
  then show ?case by simp
next
  case (2 c cs)
  show ?case
  proof (cases "is_az09 c")
    case True
    with 2 show ?thesis by (auto split: if_splits)
  next
    case False
    define t where "t = dropWhile (\<lambda>d. \<not> is_az09 d) cs"
    show ?thesis
    proof (cases "t = []")
      case True
      then show ?thesis using False by (simp add: t_def)
    next
      case ne: False
      then have "last t = last cs" 
        by (metis t_def last_appendR takeWhile_dropWhile_id)
      moreover have "cs \<noteq> []" using ne by (auto simp: t_def)
      ultimately have "\<not> is_az09 (last t)" using "2.prems" by simp
      then have "last (replace_non_az09_runs t) = CHR ''-''"
        using "2.IH"(2)[OF False] ne by (simp add: t_def)
      then show ?thesis using False ne by (simp add: t_def)
    qed
  qed
qed

lemma replace_hd_hyphen:
  "s \<noteq> [] \<Longrightarrow> \<not> is_az09 (hd s) \<Longrightarrow> hd (replace_non_az09_runs s) = CHR ''-''"
  by (cases s) auto

lemma startsWith_single: "startsWith s [c] \<longleftrightarrow> s \<noteq> [] \<and> hd s = c"
  by (cases s) (simp_all add: startsWith_def)

lemma endsWith_single: "endsWith s [c] \<longleftrightarrow> s \<noteq> [] \<and> last s = c"
  by (induction s rule: rev_induct) (simp_all add: endsWith_def)

lemma deploy_slug_edges:
  "\<not> startsWith (deploy_slug name) ''-'' \<and> \<not> endsWith (deploy_slug name) ''-''"
proof (cases "join_hyphen (az09_runs (toLowerCase name)) = []")
  case True
  then show ?thesis
    by (simp add: deploy_slug_def slug_refines startsWith_single endsWith_single)
next
  case False
  define g where "g = join_hyphen (az09_runs (toLowerCase name))"
  have g: "is_az09 (hd g)" "is_az09 (last g)"
    using spec_slug_edges[OF False] by (simp_all add: g_def)
  have "hd g \<noteq> CHR ''-''" "last g \<noteq> CHR ''-''" using g by auto
  then show ?thesis
    by (simp add: deploy_slug_def slug_refines startsWith_single endsWith_single g_def[symmetric])
qed

text \<open>
  C5. For every business name, the slug of the deploy stage is the lowercased name with
  every maximal run of characters outside \<^verbatim>\<open>[a-z0-9]\<close> collapsed to one hyphen and
  without a leading or trailing hyphen: it is the maximal \<^verbatim>\<open>[a-z0-9]\<close> runs of the
  lowercased name joined by single hyphens. The name \<^verbatim>\<open>Anush's Jams & Co.\<close> gives
  \<^verbatim>\<open>anush-s-jams-co\<close>.
\<close>

theorem deploy_slug_spec:
  "deploy_slug name = spec_slug name
   \<and> \<not> startsWith (deploy_slug name) ''-'' \<and> \<not> endsWith (deploy_slug name) ''-''
   \<and> deploy_slug ''Anush's Jams & Co.'' = ''anush-s-jams-co''"
proof -
  have "deploy_slug ''Anush's Jams & Co.'' = ''anush-s-jams-co''" by code_simp
  then show ?thesis
    using deploy_slug_edges[of name] by (simp add: deploy_slug_def spec_slug_def slug_refines)
qed

theorem deploy_slug_spec_witness:
  "deploy_slug ''  Hello,  World!  '' = ''hello-world''
   \<and> spec_slug ''  Hello,  World!  '' = ''hello-world''
   \<and> \<not> startsWith (deploy_slug ''  Hello,  World!  '') ''-''"
proof -
  have e: "spec_slug ''  Hello,  World!  '' = ''hello-world''" by code_simp
  note t = deploy_slug_spec[of "''  Hello,  World!  ''"]
  have d: "deploy_slug ''  Hello,  World!  '' = ''hello-world''"
    using t[THEN conjunct1] e by simp
  show ?thesis by (intro conjI) (rule d e t[THEN conjunct2, THEN conjunct1])+
qed

text \<open>
  C10. The file name slug of the download handler lowercases the business name and
  replaces every run of characters outside \<^verbatim>\<open>[a-z0-9]\<close> by one hyphen; it keeps a
  leading or trailing hyphen, which the deploy slug removes; it is \<^verbatim>\<open>website\<close> when the
  SME row is absent or its name is empty. So a name that ends (or starts) outside
  \<^verbatim>\<open>[a-z0-9]\<close> has a download slug that differs from its deploy slug, as \<^verbatim>\<open>Co.\<close> shows.
\<close>

theorem download_slug_spec:
  "download_slug None = ''website'' \<and> download_slug (Some []) = ''website''
   \<and> (name \<noteq> [] \<longrightarrow>
        download_slug (Some name) = replace_non_az09_runs (toLowerCase name)
        \<and> remove_edge_hyphens True (download_slug (Some name)) = deploy_slug name
        \<and> remove_edge_hyphens True (download_slug (Some name)) = spec_slug name)
   \<and> (name \<noteq> [] \<and> \<not> is_az09 (last (toLowerCase name)) \<longrightarrow>
        endsWith (download_slug (Some name)) ''-'' \<and> download_slug (Some name) \<noteq> deploy_slug name)
   \<and> (name \<noteq> [] \<and> \<not> is_az09 (hd (toLowerCase name)) \<longrightarrow>
        startsWith (download_slug (Some name)) ''-'' \<and> download_slug (Some name) \<noteq> deploy_slug name)
   \<and> download_slug (Some ''Co.'') = ''co-'' \<and> deploy_slug ''Co.'' = ''co''"
proof -
  have fallback: "download_slug None = ''website''" "download_slug (Some []) = ''website''"
    by code_simp+
  have ex: "download_slug (Some ''Co.'') = ''co-''" "deploy_slug ''Co.'' = ''co''"
    by code_simp+
  have eq: "download_slug (Some name) = replace_non_az09_runs (toLowerCase name)" if "name \<noteq> []"
    using that by (simp add: download_slug_def)
  have trimmed: "remove_edge_hyphens True (download_slug (Some name)) = deploy_slug name"
    and spec: "remove_edge_hyphens True (download_slug (Some name)) = spec_slug name"
    if "name \<noteq> []"
    using that by (simp_all add: eq deploy_slug_def spec_slug_def slug_refines)
  have trailing: "endsWith (download_slug (Some name)) ''-'' \<and> download_slug (Some name) \<noteq> deploy_slug name"
    if ne: "name \<noteq> []" and l: "\<not> is_az09 (last (toLowerCase name))"
  proof -
    define g where "g = replace_non_az09_runs (toLowerCase name)"
    have g: "g \<noteq> []" "last g = CHR ''-''"
      using ne replace_last_hyphen[OF _ l] by (simp_all add: g_def toLowerCase_def)
    then have e: "endsWith g ''-''" by (simp add: endsWith_single)
    then have "g \<noteq> deploy_slug name" using deploy_slug_edges[of name] by auto
    then show ?thesis using e by (simp add: eq[OF ne] g_def)
  qed
  have leading: "startsWith (download_slug (Some name)) ''-'' \<and> download_slug (Some name) \<noteq> deploy_slug name"
    if ne: "name \<noteq> []" and l: "\<not> is_az09 (hd (toLowerCase name))"
  proof -
    define g where "g = replace_non_az09_runs (toLowerCase name)"
    have g: "g \<noteq> []" "hd g = CHR ''-''"
      using ne replace_hd_hyphen[OF _ l] by (simp_all add: g_def toLowerCase_def)
    then have e: "startsWith g ''-''" by (simp add: startsWith_single)
    then have "g \<noteq> deploy_slug name" using deploy_slug_edges[of name] by auto
    then show ?thesis using e by (simp add: eq[OF ne] g_def)
  qed
  show ?thesis
    using fallback ex eq trimmed spec trailing leading by (intro conjI impI) simp_all
qed

theorem download_slug_spec_witness:
  "download_slug (Some ''Tea!'') = ''tea-'' \<and> deploy_slug ''Tea!'' = ''tea''
   \<and> endsWith (download_slug (Some ''Tea!'')) ''-''
   \<and> download_slug (Some ''Tea!'') \<noteq> deploy_slug ''Tea!''
   \<and> spec_slug ''Tea!'' = ''tea''"
proof -
  have a: "''Tea!'' \<noteq> []" by simp
  have b: "\<not> is_az09 (last (toLowerCase ''Tea!''))" by code_simp
  have c: "download_slug (Some ''Tea!'') = ''tea-''" "deploy_slug ''Tea!'' = ''tea''"
    by code_simp+
  have d: "spec_slug ''Tea!'' = ''tea''" by code_simp
  have "name \<noteq> [] \<and> \<not> is_az09 (last (toLowerCase name)) \<longrightarrow>
        endsWith (download_slug (Some name)) ''-'' \<and> download_slug (Some name) \<noteq> deploy_slug name"
    for name
    using download_slug_spec[of name] by (elim conjE)
  from this[of "''Tea!''"] a b
  have t: "endsWith (download_slug (Some ''Tea!'')) ''-''"
    "download_slug (Some ''Tea!'') \<noteq> deploy_slug ''Tea!''"
    by simp_all
  show ?thesis by (intro conjI) (rule c t d)+
qed

section \<open>Properties of the HTML cleanup\<close>

lemma indexOf_ge: "indexOf s p \<ge> - 1"
  by (induction s) (auto simp: Let_def)

lemma indexOf_none: "indexOf s p = - 1 \<longleftrightarrow> (\<nexists>u v. s = u @ p @ v)"
proof (induction s)
  case Nil
  then show ?case by auto
next
  case (Cons c cs)
  show ?case
  proof (cases "startsWith (c # cs) p")
    case True
    then have "c # cs = [] @ p @ drop (length p) (c # cs)"
      by (metis append_Nil append_take_drop_id startsWith_def)
    then show ?thesis using True by (auto simp del: append_Nil)
  next
    case False
    have "(\<exists>u v. c # cs = u @ p @ v) \<longleftrightarrow> (\<exists>u v. cs = u @ p @ v)"
    proof
      assume "\<exists>u v. c # cs = u @ p @ v"
      then obtain u v where uv: "c # cs = u @ p @ v" by blast
      show "\<exists>u v. cs = u @ p @ v"
      proof (cases u)
        case Nil
        then have "startsWith (c # cs) p" using uv by (simp add: startsWith_def)
        then show ?thesis using False by simp
      next
        case (Cons a u')
        then show ?thesis using uv by auto
      qed
    next
      assume "\<exists>u v. cs = u @ p @ v"
      then obtain u v where "cs = u @ p @ v" by blast
      then have "c # cs = (c # u) @ p @ v" by simp
      then show "\<exists>u v. c # cs = u @ p @ v" by blast
    qed
    then show ?thesis using False Cons.IH indexOf_ge[of cs p] by (auto simp: Let_def)
  qed
qed

lemma dropWhile_id: "s = [] \<or> \<not> P (hd s) \<Longrightarrow> dropWhile P s = s"
  by (cases s) auto

lemma trim_id:
  assumes "s = [] \<or> (\<not> isWhiteSpace (hd s) \<and> \<not> isWhiteSpace (last s))"
  shows "trim s = s"
proof (cases "s = []")
  case True
  then show ?thesis by (simp add: trim_def)
next
  case False
  with assms have h: "\<not> isWhiteSpace (hd s)" and l: "\<not> isWhiteSpace (last s)" by auto
  have 1: "dropWhile isWhiteSpace s = s" using h by (simp add: dropWhile_id)
  have "hd (rev s) = last s" using False by (simp add: hd_rev)
  then have 2: "dropWhile isWhiteSpace (rev s) = rev s" using l by (simp add: dropWhile_id)
  show ?thesis by (simp add: trim_def 1 2)
qed

lemma startsWith_iff: "startsWith s p \<longleftrightarrow> (\<exists>v. s = p @ v)"
  unfolding startsWith_def by (metis append_eq_conv_conj append_take_drop_id)

lemma endsWith_iff: "endsWith s p \<longleftrightarrow> (\<exists>u. s = u @ p)"
proof
  assume "endsWith s p"
  then have "s = take (length s - length p) s @ p"
    unfolding endsWith_def by (metis append_take_drop_id)
  then show "\<exists>u. s = u @ p" ..
next
  assume "\<exists>u. s = u @ p"
  then show "endsWith s p" by (auto simp: endsWith_def)
qed

lemma endsWith_Cons: "endsWith s (c # p) \<Longrightarrow> endsWith s p"
proof -
  assume "endsWith s (c # p)"
  then obtain u where "s = u @ c # p" by (auto simp: endsWith_iff)
  then have "s = (u @ [c]) @ p" by simp
  then have "\<exists>w. s = w @ p" by (rule exI)
  then show ?thesis by (simp add: endsWith_iff)
qed

lemma strip_fences_id:
  assumes "\<not> startsWith raw ''```''" and "\<not> endsWith raw ''```''"
  shows "strip_fence_close (strip_fence_open (strip_html_fence_open raw)) = raw"
proof -
  have "\<not> endsWith raw ''\<newline>```''"
    using assms(2) endsWith_Cons[of raw "CHR ''\<newline>''" "''```''"] by auto
  then show ?thesis
    using assms by (simp add: strip_html_fence_open_def strip_fence_open_def strip_fence_close_def)
qed

text \<open>
  C6 (as amended). The cleanup has no failing branch: it gives a string for every
  input. When the input neither starts nor ends with a triple backtick, and after
  trimming either starts (in any case) with \<^verbatim>\<open><!doctype\<close> or \<^verbatim>\<open><html\<close> or holds no
  \<^verbatim>\<open><!DOCTYPE\<close> at all, the result is the input with its surrounding white space
  trimmed; it is the input itself when there is no surrounding white space.
\<close>

theorem extractHtmlDocument_unfenced:
  assumes "\<not> startsWith raw ''```''" and "\<not> endsWith raw ''```''"
    and "startsWith (toLowerCase (trim raw)) ''<!doctype''
         \<or> startsWith (toLowerCase (trim raw)) ''<html''
         \<or> (\<nexists>u v. trim raw = u @ ''<!DOCTYPE'' @ v)"
  shows "extractHtmlDocument raw = trim raw
         \<and> ((raw = [] \<or> (\<not> isWhiteSpace (hd raw) \<and> \<not> isWhiteSpace (last raw)))
              \<longrightarrow> extractHtmlDocument raw = raw)"
proof -
  have s: "strip_fence_close (strip_fence_open (strip_html_fence_open raw)) = raw"
    using assms(1,2) by (rule strip_fences_id)
  have "indexOf (trim raw) ''<!DOCTYPE'' = - 1" if "\<nexists>u v. trim raw = u @ ''<!DOCTYPE'' @ v"
    using that indexOf_none[of "trim raw" "''<!DOCTYPE''"] by blast
  then have e: "extractHtmlDocument raw = trim raw"
    using assms(3) by (auto simp add: extractHtmlDocument_def s Let_def simp del: indexOf.simps)
  then show ?thesis using trim_id[of raw] by simp
qed

theorem extractHtmlDocument_unfenced_witness:
  "extractHtmlDocument ''<html><body>Hi</body></html>'' = ''<html><body>Hi</body></html>''
   \<and> extractHtmlDocument ''  no markup here '' = ''no markup here''"
proof -
  have a: "\<not> startsWith ''<html><body>Hi</body></html>'' ''```''"
    "\<not> endsWith ''<html><body>Hi</body></html>'' ''```''"
    "trim ''<html><body>Hi</body></html>'' = ''<html><body>Hi</body></html>''"
    "startsWith (toLowerCase ''<html><body>Hi</body></html>'') ''<html''"
    "\<not> isWhiteSpace (hd ''<html><body>Hi</body></html>'')"
    "\<not> isWhiteSpace (last ''<html><body>Hi</body></html>'')"
    by code_simp+
  have b: "\<not> startsWith ''  no markup here '' ''```''"
    "\<not> endsWith ''  no markup here '' ''```''"
    "trim ''  no markup here '' = ''no markup here''"
    "indexOf ''no markup here'' ''<!DOCTYPE'' = - 1"
    by code_simp+
  have c: "\<nexists>u v. trim ''  no markup here '' = u @ ''<!DOCTYPE'' @ v"
    using b(4) indexOf_none[of "''no markup here''" "''<!DOCTYPE''"] unfolding b(3) by blast
  have 1: "extractHtmlDocument ''<html><body>Hi</body></html>'' = ''<html><body>Hi</body></html>''"
    using extractHtmlDocument_unfenced[of "''<html><body>Hi</body></html>''"] a
    by (simp only: simp_thms)
  have 2: "extractHtmlDocument ''  no markup here '' = ''no markup here''"
    using extractHtmlDocument_unfenced[OF b(1) b(2), THEN conjunct1] c b(3) by (simp only: simp_thms)
  show ?thesis using 1 2 by (rule conjI)
qed

text \<open>
  C6 as stated fails: a reply with no fence, no doctype or html prefix and no
  \<^verbatim>\<open><!DOCTYPE\<close> loses its trailing line feed.
\<close>

theorem extractHtmlDocument_trims_counterexample:
  "\<not> startsWith ''Sorry, no page.\<newline>'' ''```''
   \<and> \<not> endsWith ''Sorry, no page.\<newline>'' ''```''
   \<and> \<not> startsWith (toLowerCase ''Sorry, no page.\<newline>'') ''<!doctype''
   \<and> \<not> startsWith (toLowerCase ''Sorry, no page.\<newline>'') ''<html''
   \<and> indexOf ''Sorry, no page.\<newline>'' ''<!DOCTYPE'' = - 1
   \<and> extractHtmlDocument ''Sorry, no page.\<newline>'' = ''Sorry, no page.''
   \<and> extractHtmlDocument ''Sorry, no page.\<newline>'' \<noteq> ''Sorry, no page.\<newline>''"
  by code_simp

section \<open>Properties of the handlers\<close>

lemma select_sme_hd: "select_sme d k = s # rest \<Longrightarrow> sme_id s = k"
proof -
  assume "select_sme d k = s # rest"
  then have "s \<in> set (filter (\<lambda>r. sme_id r = k) (smes d))" by (simp add: select_sme_def)
  then show ?thesis by simp
qed

lemma filter_unique:
  "distinct (map f xs) \<Longrightarrow> x \<in> set xs \<Longrightarrow> filter (\<lambda>r. f r = f x) xs = [x]"
proof (induction xs)
  case Nil
  then show ?case by simp
next
  case (Cons a xs)
  show ?case
  proof (cases "x = a")
    case True
    have "filter (\<lambda>r. f r = f a) xs = []"
      using Cons.prems(1) by (auto simp: filter_empty_conv intro: rev_image_eqI)
    then show ?thesis using True by simp
  next
    case False
    then have x: "x \<in> set xs" using Cons.prems(2) by simp
    then have "f a \<noteq> f x" using Cons.prems(1) by auto
    then show ?thesis using Cons.IH x Cons.prems(1) by simp
  qed
qed

lemma filter_map_upd:
  "(\<And>r. ws_sme_id (g r) = ws_sme_id r) \<Longrightarrow>
   filter (\<lambda>r. ws_sme_id r = k) (map (\<lambda>r. if ws_sme_id r = k then g r else r) ws)
   = map g (filter (\<lambda>r. ws_sme_id r = k) ws)"
  by (induction ws) auto

lemma map_key_upd:
  "(\<And>r. ws_sme_id (g r) = ws_sme_id r) \<Longrightarrow>
   map (ws_sme_id \<circ> (\<lambda>r. if ws_sme_id r = k then g r else r)) ws = map ws_sme_id ws"
  by (induction ws) auto

lemma rebuilt_key [simp]: "ws_sme_id (rebuilt h t r) = ws_sme_id r"
  by (simp add: rebuilt_def)

lemma upsert_website_result:
  assumes u: "unique_sme_id d" and r: "upsert_website f t k h d = Some d1"
  shows "(\<exists>w. select_website d1 k = [w] \<and> ws_html w = h \<and> ws_deployed_url w = None
              \<and> ws_deployed_at w = None \<and> ws_built_at w = Some t)
         \<and> unique_sme_id d1 \<and> smes d1 = smes d"
proof (cases "list_ex (\<lambda>r. ws_sme_id r = k) (websites d)")
  case True
  then obtain x where x: "x \<in> set (websites d)" "ws_sme_id x = k"
    by (auto simp: list_ex_iff)
  have d1: "d1 = d\<lparr>websites := map (\<lambda>r. if ws_sme_id r = k then rebuilt h t r else r) (websites d)\<rparr>"
    using r True by (simp add: upsert_website_def)
  have "filter (\<lambda>r. ws_sme_id r = ws_sme_id x) (websites d) = [x]"
    using u x(1) unfolding unique_sme_id_def by (rule filter_unique)
  then have "select_website d1 k = [rebuilt h t x]"
    by (simp add: d1 select_website_def filter_map_upd x(2))
  moreover have "unique_sme_id d1"
    using u by (simp add: d1 unique_sme_id_def map_key_upd)
  ultimately show ?thesis by (simp add: d1 rebuilt_def)
next
  case False
  then have no: "filter (\<lambda>r. ws_sme_id r = k) (websites d) = []"
    by (auto simp: list_ex_iff filter_empty_conv)
  have nk: "k \<notin> set (map ws_sme_id (websites d))"
    using False by (auto simp: list_ex_iff)
  have d1: "d1 = d\<lparr>websites := websites d @
             [\<lparr>ws_id = f, ws_sme_id = k, ws_html = h, ws_deployed_url = None,
               ws_slug = None, ws_built_at = Some t, ws_deployed_at = None\<rparr>]\<rparr>"
    using r False by (simp add: upsert_website_def split: if_splits)
  have "unique_sme_id d1" using u nk by (simp add: d1 unique_sme_id_def)
  then show ?thesis by (simp add: d1 select_website_def no)
qed

lemma build_website_ok:
  assumes "build_website e (Some raw) k d = (Ok_true, d')"
  shows "\<exists>d1. select_sme d k \<noteq> [] \<and>
           upsert_website (fresh_id e) (clock e 1) k (extractHtmlDocument raw) d = Some d1 \<and>
           d' = update_sme_built k d1"
proof (cases "select_sme d k")
  case Nil
  then show ?thesis using assms by (simp add: build_website_def split: if_splits)
next
  case (Cons s rest)
  then have "sme_id s = k" by (rule select_sme_hd)
  then show ?thesis
    using assms Cons by (auto simp: build_website_def Let_def split: if_splits option.splits)
qed

lemma deploy_ok:
  assumes "deploy e k d = (Ok_deployed url slug, d')"
  shows "d' = update_sme_deployed url k (update_website_deployed url slug (clock e 2) k d)"
proof (cases "select_sme d k")
  case Nil
  then show ?thesis using assms by (simp add: deploy_def split: if_splits)
next
  case (Cons s rest)
  then have "sme_id s = k" by (rule select_sme_hd)
  then show ?thesis
    using assms Cons by (auto simp: deploy_def Let_def split: if_splits list.splits)
qed

lemma deploy_unique:
  "unique_sme_id d \<Longrightarrow> unique_sme_id (update_sme_deployed url k (update_website_deployed url slug t k d))"
proof -
  assume u: "unique_sme_id d"
  have m: "map (ws_sme_id \<circ> (\<lambda>r. if ws_sme_id r = k
           then r\<lparr>ws_deployed_url := Some url, ws_slug := Some slug, ws_deployed_at := Some t\<rparr>
           else r)) (websites d) = map ws_sme_id (websites d)"
    by (rule map_key_upd) simp
  show ?thesis
    using u by (simp add: unique_sme_id_def update_sme_deployed_def update_website_deployed_def m)
qed

lemma filter_map_upd_sme:
  "(\<And>r. sme_id (g r) = sme_id r) \<Longrightarrow>
   filter (\<lambda>r. sme_id r = k) (map (\<lambda>r. if sme_id r = k then g r else r) xs)
   = map g (filter (\<lambda>r. sme_id r = k) xs)"
  by (induction xs) auto

lemma select_sme_built:
  "select_sme (update_sme_built k d) k
   = map (\<lambda>s. s\<lparr>sme_status := Website_built, sme_deployed_url := None\<rparr>) (select_sme d k)"
proof -
  have "filter (\<lambda>r. sme_id r = k)
          (map (\<lambda>r. if sme_id r = k
                    then r\<lparr>sme_status := Website_built, sme_deployed_url := None\<rparr> else r) (smes d))
        = map (\<lambda>s. s\<lparr>sme_status := Website_built, sme_deployed_url := None\<rparr>)
            (filter (\<lambda>r. sme_id r = k) (smes d))"
    by (rule filter_map_upd_sme) simp
  then show ?thesis by (simp add: select_sme_def update_sme_built_def)
qed

lemma websites_built [simp]: "websites (update_sme_built k d) = websites d"
  by (simp add: update_sme_built_def)

lemma update_sme_built_result:
  "select_website (update_sme_built k d) j = select_website d j
   \<and> unique_sme_id (update_sme_built k d) = unique_sme_id d
   \<and> (\<forall>s\<in>set (select_sme (update_sme_built k d) k).
        sme_deployed_url s = None \<and> sme_status s = Website_built)
   \<and> (select_sme (update_sme_built k d) k = [] \<longleftrightarrow> select_sme d k = [])"
proof -
  have "\<forall>s\<in>set (select_sme (update_sme_built k d) k).
        sme_deployed_url s = None \<and> sme_status s = Website_built"
    unfolding select_sme_built by auto
  moreover have "select_sme (update_sme_built k d) k = [] \<longleftrightarrow> select_sme d k = []"
    unfolding select_sme_built by simp
  ultimately show ?thesis by (simp add: select_website_def unique_sme_id_def)
qed

lemma build_website_result:
  assumes u: "unique_sme_id d" and b: "build_website e (Some raw) k d = (Ok_true, d')"
  shows "(\<exists>w. select_website d' k = [w] \<and> ws_html w = extractHtmlDocument raw
              \<and> ws_deployed_url w = None \<and> ws_deployed_at w = None)
         \<and> (\<forall>s\<in>set (select_sme d' k). sme_deployed_url s = None \<and> sme_status s = Website_built)
         \<and> select_sme d' k \<noteq> [] \<and> unique_sme_id d'"
proof -
  from build_website_ok[OF b] obtain d1 where
    s: "select_sme d k \<noteq> []" and
    up: "upsert_website (fresh_id e) (clock e 1) k (extractHtmlDocument raw) d = Some d1" and
    d': "d' = update_sme_built k d1" by blast
  note r = upsert_website_result[OF u up]
  have "select_sme d1 k = select_sme d k" using r by (simp add: select_sme_def)
  then show ?thesis
    using r s update_sme_built_result[of k d1 k] unfolding d' by auto
qed

text \<open>
  C3. On a store that keeps the unique constraint on \<^verbatim>\<open>websites.sme_id\<close>, two successful
  builds for the same SME, with or without a successful deploy between them, leave
  exactly one website row for the SME: it holds the second build's (cleaned) html and
  its \<^verbatim>\<open>deployed_url\<close> and \<^verbatim>\<open>deployed_at\<close> are null; the SME row has no deployed URL
  either.
\<close>

theorem build_twice_one_website:
  assumes "unique_sme_id d0"
    and "build_website e1 (Some raw1) k d0 = (Ok_true, d1)"
    and "dm = d1 \<or> (\<exists>url slug. deploy e k d1 = (Ok_deployed url slug, dm))"
    and "build_website e2 (Some raw2) k dm = (Ok_true, d2)"
  shows "(\<exists>w. select_website d2 k = [w] \<and> ws_html w = extractHtmlDocument raw2
              \<and> ws_deployed_url w = None \<and> ws_deployed_at w = None)
         \<and> (\<forall>s\<in>set (select_sme d2 k). sme_deployed_url s = None \<and> sme_status s = Website_built)
         \<and> select_sme d2 k \<noteq> [] \<and> unique_sme_id d2"
proof -
  have u1: "unique_sme_id d1"
    using build_website_result[OF assms(1,2)] by simp
  have "unique_sme_id dm"
    using assms(3)
  proof
    assume "dm = d1"
    then show ?thesis using u1 by simp
  next
    assume "\<exists>url slug. deploy e k d1 = (Ok_deployed url slug, dm)"
    then obtain url slug where "deploy e k d1 = (Ok_deployed url slug, dm)" by blast
    then have "dm = update_sme_deployed url k (update_website_deployed url slug (clock e 2) k d1)"
      by (rule deploy_ok)
    then show ?thesis using deploy_unique[OF u1] by simp
  qed
  then show ?thesis using assms(4) by (rule build_website_result)
qed


theorem build_twice_one_website_witness:
  "build_website (quiet 1 ''w1'') (Some ''<html>one</html>'') ''s1'' store_discovered
     = (Ok_true, snd (build_website (quiet 1 ''w1'') (Some ''<html>one</html>'') ''s1'' store_discovered))
   \<and> deploy (quiet 2 ''w2'') ''s1''
         (snd (build_website (quiet 1 ''w1'') (Some ''<html>one</html>'') ''s1'' store_discovered))
       = (Ok_deployed ''https://anna-bakes.netlify.app'' ''anna-bakes'', store_deployed)
   \<and> (\<exists>w. select_website
              (snd (build_website (quiet 3 ''w3'') (Some ''```html\<newline><html>two</html>\<newline>```'')
                      ''s1'' store_deployed)) ''s1'' = [w]
            \<and> ws_html w = ''<html>two</html>'' \<and> ws_deployed_url w = None
            \<and> ws_deployed_at w = None)"
proof -
  define d1 where "d1 = snd (build_website (quiet 1 ''w1'') (Some ''<html>one</html>'') ''s1'' store_discovered)"
  define d2 where "d2 = snd (build_website (quiet 3 ''w3'')
                               (Some ''```html\<newline><html>two</html>\<newline>```'') ''s1'' store_deployed)"
  have u: "unique_sme_id store_discovered" by code_simp
  have b1: "build_website (quiet 1 ''w1'') (Some ''<html>one</html>'') ''s1'' store_discovered = (Ok_true, d1)"
    unfolding d1_def by code_simp
  have dp: "deploy (quiet 2 ''w2'') ''s1'' d1
            = (Ok_deployed ''https://anna-bakes.netlify.app'' ''anna-bakes'', store_deployed)"
    unfolding d1_def by code_simp
  have b2: "build_website (quiet 3 ''w3'') (Some ''```html\<newline><html>two</html>\<newline>```'')
              ''s1'' store_deployed = (Ok_true, d2)"
    unfolding d2_def by code_simp
  have x: "extractHtmlDocument ''```html\<newline><html>two</html>\<newline>```'' = ''<html>two</html>''"
    by code_simp
  have m: "store_deployed = d1 \<or> (\<exists>url slug. deploy (quiet 2 ''w2'') ''s1'' d1 = (Ok_deployed url slug, store_deployed))"
    using dp by (intro disjI2 exI)
  from build_twice_one_website[OF u b1 m b2]
  have "\<exists>w. select_website d2 ''s1'' = [w] \<and>
            ws_html w = extractHtmlDocument ''```html\<newline><html>two</html>\<newline>```'' \<and>
            ws_deployed_url w = None \<and> ws_deployed_at w = None"
    by (rule conjunct1)
  then have "\<exists>w. select_website d2 ''s1'' = [w] \<and> ws_html w = ''<html>two</html>'' \<and>
            ws_deployed_url w = None \<and> ws_deployed_at w = None"
    unfolding x .
  then show ?thesis using b1 dp unfolding d1_def d2_def by (intro conjI)
qed

text \<open>
  C4. For an SME that exists and has no website row, deploy writes nothing, whatever
  its queries do, and when its two reads resolve it answers 400 with
  \<^verbatim>\<open>Build website first\<close>.
\<close>

theorem deploy_without_website:
  assumes "select_sme d k \<noteq> []" and "select_website d k = []"
  shows "snd (deploy e k d) = d
         \<and> (\<not> rejects e 0 \<and> \<not> rejects e 1 \<longrightarrow>
              deploy e k d = (Error_json 400 ''Build website first'', d))"
  using assms by (cases "select_sme d k") (simp_all add: deploy_def)

theorem deploy_without_website_witness:
  "deploy (quiet 2 ''w2'') ''s1'' store_discovered
     = (Error_json 400 ''Build website first'', store_discovered)
   \<and> snd (deploy (failing_at 1 2 ''w2'') ''s1'' store_discovered) = store_discovered"
proof -
  have a: "select_sme store_discovered ''s1'' \<noteq> []" "select_website store_discovered ''s1'' = []"
    by code_simp+
  have q: "\<not> rejects (quiet 2 ''w2'') 0 \<and> \<not> rejects (quiet 2 ''w2'') 1" by (simp add: quiet_def)
  have 1: "deploy (quiet 2 ''w2'') ''s1'' store_discovered
           = (Error_json 400 ''Build website first'', store_discovered)"
    using deploy_without_website[OF a, of "quiet 2 ''w2''", THEN conjunct2] q by (rule mp)
  have 2: "snd (deploy (failing_at 1 2 ''w2'') ''s1'' store_discovered) = store_discovered"
    using deploy_without_website[OF a, of "failing_at 1 2 ''w2''"] by (rule conjunct1)
  show ?thesis using 1 2 by (rule conjI)
qed

text \<open>
  C2. The claim has the rebuild null \<^verbatim>\<open>deployed_url\<close>, \<^verbatim>\<open>deployed_at\<close> and \<^verbatim>\<open>slug\<close> of
  an existing website row. At the deployed sample store the code nulls the first two
  and leaves the slug \<^verbatim>\<open>anna-bakes\<close> in the row.
\<close>

theorem rebuild_keeps_slug:
  "build_website (quiet 3 ''w3'') (Some ''<html>two</html>'') ''s1'' store_deployed
     = (Ok_true,
        \<lparr>smes = [\<lparr>sme_id = ''s1'', sme_name = ''Anna Bakes'', sme_status = Website_built,
                  sme_deployed_url = None\<rparr>],
         websites = [\<lparr>ws_id = ''w1'', ws_sme_id = ''s1'', ws_html = ''<html>two</html>'',
                      ws_deployed_url = None, ws_slug = Some ''anna-bakes'',
                      ws_built_at = Some 3, ws_deployed_at = None\<rparr>]\<rparr>)
   \<and> map ws_slug (select_website store_deployed ''s1'') = [Some ''anna-bakes'']
   \<and> map ws_slug (select_website
          (snd (build_website (quiet 3 ''w3'') (Some ''<html>two</html>'') ''s1'' store_deployed)) ''s1'')
       = [Some ''anna-bakes'']"
  by code_simp

text \<open>
  C7 (as amended). A storage failure at a read or at the first write of build-website
  or deploy leaves the store as it was before the stage ran. The two writes of a stage
  are separate statements with no transaction around them: when the second one, the
  update of the SME row, rejects, the write of the first one to the website row stays
  and the SME row is as before.
\<close>

theorem storage_failure_effect:
  "(rejects e 0 \<or> rejects e 1 \<longrightarrow> snd (build_website e reply k d) = d)
   \<and> (rejects e 0 \<or> rejects e 1 \<or> rejects e 2 \<longrightarrow> snd (deploy e k d) = d)
   \<and> (\<not> rejects e 0 \<and> \<not> rejects e 1 \<and> rejects e 2 \<and> select_sme d k \<noteq> [] \<longrightarrow>
        (\<exists>d1. upsert_website (fresh_id e) (clock e 1) k (extractHtmlDocument raw) d = Some d1
              \<and> smes d1 = smes d
              \<and> build_website e (Some raw) k d = (Error_json 500 ''Website builder failed'', d1)))
   \<and> (\<not> rejects e 0 \<and> \<not> rejects e 1 \<and> \<not> rejects e 2 \<and> rejects e 3
        \<and> select_sme d k \<noteq> [] \<and> select_website d k \<noteq> [] \<longrightarrow>
        deploy e k d =
          (Error_json 500 ''Deploy failed'',
           update_website_deployed (deploy_url (deploy_slug (sme_name (hd (select_sme d k)))))
             (deploy_slug (sme_name (hd (select_sme d k)))) (clock e 2) k d))"
proof -
  have 1: "snd (build_website e reply k d) = d" if "rejects e 0 \<or> rejects e 1"
    using that by (auto simp: build_website_def Let_def split: list.splits option.splits)
  have 2: "snd (deploy e k d) = d" if "rejects e 0 \<or> rejects e 1 \<or> rejects e 2"
    using that by (auto simp: deploy_def Let_def split: list.splits)
  have 3: "\<exists>d1. upsert_website (fresh_id e) (clock e 1) k (extractHtmlDocument raw) d = Some d1
              \<and> smes d1 = smes d
              \<and> build_website e (Some raw) k d = (Error_json 500 ''Website builder failed'', d1)"
    if r: "\<not> rejects e 0" "\<not> rejects e 1" "rejects e 2" and s: "select_sme d k \<noteq> []"
  proof -
    obtain x rest where x: "select_sme d k = x # rest" using s by (cases "select_sme d k") auto
    then have k: "sme_id x = k" by (rule select_sme_hd)
    have "x \<in> set (filter (\<lambda>r. sme_id r = k) (smes d))" using x by (simp add: select_sme_def)
    then have ex: "list_ex (\<lambda>s. sme_id s = k) (smes d)" by (auto simp: list_ex_iff)
    then have "\<exists>d1. upsert_website (fresh_id e) (clock e 1) k (extractHtmlDocument raw) d = Some d1"
      by (simp add: upsert_website_def)
    then obtain d1 where d1: "upsert_website (fresh_id e) (clock e 1) k (extractHtmlDocument raw) d = Some d1"
      by (rule exE)
    have "smes d1 = smes d" using d1 ex by (auto simp: upsert_website_def split: if_splits)
    then show ?thesis using r x k d1 by (simp add: build_website_def Let_def)
  qed
  have 4: "deploy e k d =
          (Error_json 500 ''Deploy failed'',
           update_website_deployed (deploy_url (deploy_slug (sme_name (hd (select_sme d k)))))
             (deploy_slug (sme_name (hd (select_sme d k)))) (clock e 2) k d)"
    if r: "\<not> rejects e 0" "\<not> rejects e 1" "\<not> rejects e 2" "rejects e 3"
      and s: "select_sme d k \<noteq> []" and w: "select_website d k \<noteq> []"
  proof -
    obtain x rest where x: "select_sme d k = x # rest" using s by (cases "select_sme d k") auto
    then have k: "sme_id x = k" by (rule select_sme_hd)
    obtain y ys where y: "select_website d k = y # ys" using w by (cases "select_website d k") auto
    show ?thesis using r x k y by (simp add: deploy_def Let_def)
  qed
  show ?thesis using 1 2 3 4 by (intro conjI impI) (simp_all only: simp_thms)
qed

theorem storage_failure_effect_witness:
  "snd (build_website (failing_at 1 3 ''w3'') (Some ''<html>two</html>'') ''s1'' store_deployed)
     = store_deployed
   \<and> snd (deploy (failing_at 2 3 ''w3'') ''s1'' store_deployed) = store_deployed
   \<and> (\<exists>d1. upsert_website ''w3'' 3 ''s1'' ''<html>two</html>'' store_deployed = Some d1
            \<and> smes d1 = smes store_deployed
            \<and> build_website (failing_at 2 3 ''w3'') (Some ''<html>two</html>'') ''s1'' store_deployed
                = (Error_json 500 ''Website builder failed'', d1))"
proof -
  note t = storage_failure_effect[of _ _ "''s1''" store_deployed "''<html>two</html>''"]
  have r1: "rejects (failing_at 1 3 ''w3'') 0 \<or> rejects (failing_at 1 3 ''w3'') 1"
    by (simp add: failing_at_def)
  have r2: "rejects (failing_at 2 3 ''w3'') 0 \<or> rejects (failing_at 2 3 ''w3'') 1
            \<or> rejects (failing_at 2 3 ''w3'') 2"
    by (simp add: failing_at_def)
  have r3: "\<not> rejects (failing_at 2 3 ''w3'') 0 \<and> \<not> rejects (failing_at 2 3 ''w3'') 1
            \<and> rejects (failing_at 2 3 ''w3'') 2 \<and> select_sme store_deployed ''s1'' \<noteq> []"
    by code_simp
  have f: "fresh_id (failing_at 2 3 ''w3'') = ''w3''" "clock (failing_at 2 3 ''w3'') 1 = 3"
    by (simp_all add: failing_at_def)
  have x: "extractHtmlDocument ''<html>two</html>'' = ''<html>two</html>''" by code_simp
  have 1: "snd (build_website (failing_at 1 3 ''w3'') (Some ''<html>two</html>'') ''s1'' store_deployed)
           = store_deployed"
    using t[of "failing_at 1 3 ''w3''" "Some ''<html>two</html>''", THEN conjunct1] r1 by (rule mp)
  have 2: "snd (deploy (failing_at 2 3 ''w3'') ''s1'' store_deployed) = store_deployed"
    using t[of "failing_at 2 3 ''w3''" "None", THEN conjunct2, THEN conjunct1] r2 by (rule mp)
  have 3: "\<exists>d1. upsert_website ''w3'' 3 ''s1'' ''<html>two</html>'' store_deployed = Some d1
            \<and> smes d1 = smes store_deployed
            \<and> build_website (failing_at 2 3 ''w3'') (Some ''<html>two</html>'') ''s1'' store_deployed
                = (Error_json 500 ''Website builder failed'', d1)"
    using t[of "failing_at 2 3 ''w3''" "None", THEN conjunct2, THEN conjunct2, THEN conjunct1] r3
    unfolding f x by (rule mp)
  show ?thesis using 1 2 3 by (intro conjI)
qed

text \<open>
  C7 as stated fails: when the update of the SME row rejects during a rebuild of the
  deployed sample store, the website row is already rewritten while the SME row still
  says deployed.
\<close>

theorem storage_failure_partial_counterexample:
  "build_website (failing_at 2 3 ''w3'') (Some ''<html>two</html>'') ''s1'' store_deployed
     = (Error_json 500 ''Website builder failed'',
        \<lparr>smes = [\<lparr>sme_id = ''s1'', sme_name = ''Anna Bakes'', sme_status = Deployed,
                  sme_deployed_url = Some ''https://anna-bakes.netlify.app''\<rparr>],
         websites = [\<lparr>ws_id = ''w1'', ws_sme_id = ''s1'', ws_html = ''<html>two</html>'',
                      ws_deployed_url = None, ws_slug = Some ''anna-bakes'',
                      ws_built_at = Some 3, ws_deployed_at = None\<rparr>]\<rparr>)
   \<and> snd (build_website (failing_at 2 3 ''w3'') (Some ''<html>two</html>'') ''s1'' store_deployed)
       \<noteq> store_deployed"
  by code_simp

section \<open>Properties of the extractor\<close>

lemma startsWith_Cons: "startsWith (a # s) (b # p) \<longleftrightarrow> a = b \<and> startsWith s p"
  by (simp add: startsWith_def)

lemma startsWith_Nil [simp]: "startsWith s []"
  by (simp add: startsWith_def)

lemma startsWith_Nil_left: "startsWith [] p \<longleftrightarrow> p = []"
  by (auto simp: startsWith_def)

lemma indexOf_char:
  "indexOf s [c] = (if c \<in> set s then int (length (takeWhile (\<lambda>x. x \<noteq> c) s)) else - 1)"
  by (induction s) (auto simp: startsWith_Cons startsWith_Nil_left Let_def)

lemma takeWhile_rev_snoc:
  "takeWhile (\<lambda>x. x \<noteq> c) (rev s @ [a]) =
     (if c \<in> set s then takeWhile (\<lambda>x. x \<noteq> c) (rev s)
      else rev s @ takeWhile (\<lambda>x. x \<noteq> c) [a])"
proof (cases "c \<in> set s")
  case True
  then show ?thesis
    using takeWhile_append1[of c "rev s" "\<lambda>x. x \<noteq> c" "[a]"] by simp
next
  case False
  then have "takeWhile (\<lambda>x. x \<noteq> c) (rev s @ [a]) = rev s @ takeWhile (\<lambda>x. x \<noteq> c) [a]"
    by (intro takeWhile_append2) auto
  then show ?thesis using False by simp
qed

lemma length_takeWhile_less:
  "c \<in> set s \<Longrightarrow> length (takeWhile (\<lambda>x. x \<noteq> c) s) < length s"
  by (induction s) auto

lemma lastIndexOf_char:
  "lastIndexOf s [c] =
     (if c \<in> set s then int (length s) - 1 - int (length (takeWhile (\<lambda>x. x \<noteq> c) (rev s)))
      else - 1)"
proof (induction s)
  case Nil
  then show ?case by simp
next
  case (Cons a s)
  show ?case
  proof (cases "c \<in> set s")
    case True
    have "length (takeWhile (\<lambda>x. x \<noteq> c) (rev s)) < length s"
      using length_takeWhile_less[of c "rev s"] True by simp
    then show ?thesis
      using True Cons.IH by (simp add: Let_def takeWhile_rev_snoc)
  next
    case False
    then have r: "lastIndexOf s [c] = - 1" using Cons.IH by simp
    show ?thesis
    proof (cases "a = c")
      case True
      then show ?thesis
        using False r by (simp add: Let_def takeWhile_rev_snoc startsWith_Cons)
    next
      case ne: False
      then show ?thesis
        using False r by (simp add: Let_def startsWith_Cons)
    qed
  qed
qed

lemma length_takeWhile_take:
  "length (takeWhile Q (take m xs)) = min m (length (takeWhile Q xs))"
proof (induction xs arbitrary: m)
  case Nil
  then show ?case by simp
next
  case (Cons x xs)
  then show ?case by (cases m) auto
qed

lemma bracket_span_eq:
  "bracket_span s =
     take (length s - length (takeWhile (\<lambda>c. c \<noteq> CHR ''['') s)
             - length (takeWhile (\<lambda>c. c \<noteq> CHR '']'') (rev s)))
       (drop (length (takeWhile (\<lambda>c. c \<noteq> CHR ''['') s)) s)"
proof -
  define i where "i = length (takeWhile (\<lambda>c. c \<noteq> CHR ''['') s)"
  define j where "j = length (takeWhile (\<lambda>c. c \<noteq> CHR '']'') (rev s))"
  define t where "t = drop i s"
  have t: "dropWhile (\<lambda>c. c \<noteq> CHR ''['') s = t"
    by (simp add: t_def i_def dropWhile_eq_drop)
  have "rev t = take (length s - i) (rev s)" by (simp add: t_def rev_drop)
  then have k: "length (takeWhile (\<lambda>c. c \<noteq> CHR '']'') (rev t)) = min (length s - i) j"
    by (simp add: length_takeWhile_take j_def)
  have "rev (dropWhile (\<lambda>c. c \<noteq> CHR '']'') (rev t))
        = rev (drop (min (length s - i) j) (rev t))"
    using k by (simp add: dropWhile_eq_drop)
  also have "\<dots> = take (length t - min (length s - i) j) t"
    by (simp add: rev_drop)
  also have "\<dots> = take (length s - i - j) t"
  proof -
    have "i \<le> length s" by (simp add: i_def length_takeWhile_le)
    then have "length t - min (length s - i) j = length s - i - j"
      by (simp add: t_def min_def)
    then show ?thesis by simp
  qed
  finally show ?thesis
    unfolding bracket_span_def t i_def[symmetric] j_def[symmetric] t_def .
qed

lemma slice_bracket_span:
  assumes "CHR ''['' \<in> set s" and "CHR '']'' \<in> set s"
  shows "slice s (indexOf s ''['') (lastIndexOf s '']'' + 1) = bracket_span s"
proof -
  define i where "i = length (takeWhile (\<lambda>c. c \<noteq> CHR ''['') s)"
  define j where "j = length (takeWhile (\<lambda>c. c \<noteq> CHR '']'') (rev s))"
  have i: "i < length s" using length_takeWhile_less[OF assms(1)] by (simp add: i_def)
  have j: "j < length s" using length_takeWhile_less[of "CHR '']''" "rev s"] assms(2) by (simp add: j_def)
  have a: "indexOf s ''['' = int i" using assms(1) by (simp add: indexOf_char i_def)
  have b: "lastIndexOf s '']'' + 1 = int (length s) - int j"
    using assms(2) by (simp add: lastIndexOf_char j_def)
  have "nat (int (length s) - int j - int i) = length s - i - j" by simp
  then have "slice s (int i) (int (length s) - int j) = take (length s - i - j) (drop i s)"
    using i j by (simp add: slice_def Let_def min_def)
  then show ?thesis unfolding a b bracket_span_eq i_def j_def .
qed

lemma indexOf_minus_one: "indexOf s [c] = - 1 \<longleftrightarrow> c \<notin> set s"
  by (simp add: indexOf_char)

lemma lastIndexOf_minus_one: "lastIndexOf s [c] = - 1 \<longleftrightarrow> c \<notin> set s"
proof (cases "c \<in> set s")
  case True
  have "length (takeWhile (\<lambda>x. x \<noteq> c) (rev s)) < length s"
    using length_takeWhile_less[of c "rev s"] True by simp
  then show ?thesis using True by (simp add: lastIndexOf_char)
next
  case False
  then show ?thesis by (simp add: lastIndexOf_char)
qed

lemma parseJsonArray_eq:
  "parseJsonArray text =
     (if CHR ''['' \<notin> set (cleaned text) \<or> CHR '']'' \<notin> set (cleaned text)
      then Inl Could_not_find_array
      else case JSON_parse (bracket_span (cleaned text)) of
             None \<Rightarrow> Inl Syntax_error
           | Some v \<Rightarrow> Inr v)"
proof (cases "CHR ''['' \<in> set (cleaned text) \<and> CHR '']'' \<in> set (cleaned text)")
  case True
  then show ?thesis
    using slice_bracket_span[of "cleaned text"]
    by (simp add: parseJsonArray_def Let_def indexOf_minus_one lastIndexOf_minus_one)
next
  case False
  then show ?thesis
    by (auto simp add: parseJsonArray_def Let_def indexOf_minus_one lastIndexOf_minus_one)
qed

lemma strip_fences_hd:
  "strip_fences s = CHR 0x60 # rest \<Longrightarrow> \<exists>cs. s = CHR 0x60 # cs"
proof (induction s rule: strip_fences.induct)
  case 1
  then show ?case by simp
next
  case (2 c cs)
  show ?case
  proof (cases "startsWith (c # cs) ''```''")
    case True
    then show ?thesis by (simp add: startsWith_Cons)
  next
    case False
    then show ?thesis using "2.prems" by simp
  qed
qed

lemma strip_fences_no_fence: "strip_fences s \<noteq> u @ ''```'' @ v"
proof (induction s arbitrary: u v rule: strip_fences.induct)
  case 1
  then show ?case by simp
next
  case (2 c cs)
  show ?case
  proof (cases "startsWith (c # cs) ''```''")
    case True
    then show ?thesis using "2.IH"(1)[OF True] by simp
  next
    case False
    then have eq: "strip_fences (c # cs) = c # strip_fences cs" by simp
    show ?thesis
    proof
      assume a: "strip_fences (c # cs) = u @ ''```'' @ v"
      show False
      proof (cases u)
        case Nil
        with a have "c # strip_fences cs = CHR 0x60 # CHR 0x60 # CHR 0x60 # v"
          unfolding eq by simp
        then have c: "c = CHR 0x60" and t: "strip_fences cs = CHR 0x60 # CHR 0x60 # v"
          by simp_all
        from strip_fences_hd[OF t] obtain ds where ds: "cs = CHR 0x60 # ds" by blast
        have nf: "\<not> startsWith cs ''```''"
          using False c ds by (cases ds) (simp_all add: startsWith_Cons startsWith_Nil_left)
        then have "strip_fences cs = CHR 0x60 # strip_fences ds" using ds by simp
        then have "strip_fences ds = CHR 0x60 # v" using t by simp
        from strip_fences_hd[OF this] obtain es where "ds = CHR 0x60 # es" by blast
        then have "startsWith (c # cs) ''```''" using c ds by (simp add: startsWith_Cons)
        then show False using False by simp
      next
        case (Cons b u')
        with a have "c # strip_fences cs = b # u' @ ''```'' @ v" unfolding eq by simp
        then have "strip_fences cs = u' @ ''```'' @ v" by simp
        with "2.IH"(2)[OF False, of u' v] show False by (rule notE)
      qed
    qed
  qed
qed

lemma trim_segment: "\<exists>a b. s = a @ trim s @ b"
proof -
  define y where "y = dropWhile isWhiteSpace s"
  define z where "z = dropWhile isWhiteSpace (rev y)"
  have "rev y = takeWhile isWhiteSpace (rev y) @ z" by (simp add: z_def)
  then have "rev (rev y) = rev (takeWhile isWhiteSpace (rev y) @ z)" by simp
  then have "y = rev z @ rev (takeWhile isWhiteSpace (rev y))" by simp
  moreover have "s = takeWhile isWhiteSpace s @ y" by (simp add: y_def)
  ultimately have "s = takeWhile isWhiteSpace s @ trim s @ rev (takeWhile isWhiteSpace (rev y))"
    by (simp add: trim_def y_def z_def)
  then show ?thesis by blast
qed

lemma cleaned_no_fence: "cleaned text \<noteq> u @ ''```'' @ v"
proof
  assume a: "cleaned text = u @ ''```'' @ v"
  obtain p q where "strip_fences (strip_json_fences text) = p @ cleaned text @ q"
    using trim_segment[of "strip_fences (strip_json_fences text)"] by (auto simp: cleaned_def)
  then have "strip_fences (strip_json_fences text) = (p @ u) @ ''```'' @ (v @ q)"
    using a by simp
  then show False using strip_fences_no_fence by blast
qed

lemma trim_edges:
  "trim s = [] \<or> (\<not> isWhiteSpace (hd (trim s)) \<and> \<not> isWhiteSpace (last (trim s)))"
proof (cases "trim s = []")
  case True
  then show ?thesis by simp
next
  case False
  define y where "y = dropWhile isWhiteSpace s"
  define z where "z = dropWhile isWhiteSpace (rev y)"
  have t: "trim s = rev z" by (simp add: trim_def y_def z_def)
  have z: "z \<noteq> []" using False t by simp
  then have y: "y \<noteq> []" by (auto simp: z_def)
  have 1: "\<not> isWhiteSpace (hd z)" using z hd_dropWhile[of isWhiteSpace "rev y"] by (simp add: z_def)
  have "rev y = takeWhile isWhiteSpace (rev y) @ z" by (simp add: z_def)
  then have "last (rev y) = last z" using z by (metis last_appendR)
  then have "last z = hd y" using y by (simp add: last_rev)
  moreover have "\<not> isWhiteSpace (hd y)" using y hd_dropWhile[of isWhiteSpace s] by (simp add: y_def)
  ultimately have 2: "\<not> isWhiteSpace (last z)" by simp
  show ?thesis using 1 2 z by (simp add: t hd_rev last_rev)
qed

lemma strip_fences_plain: "CHR 0x60 \<notin> set s \<Longrightarrow> strip_fences s = s"
  by (induction s) (auto simp: startsWith_Cons)

lemma startsWith_set: "startsWith s p \<Longrightarrow> set p \<subseteq> set s"
  unfolding startsWith_def by (metis set_take_subset)

lemma strip_json_fences_plain: "CHR 0x60 \<notin> set s \<Longrightarrow> strip_json_fences s = s"
proof (induction s)
  case Nil
  then show ?case by simp
next
  case (Cons c cs)
  have "\<not> startsWith (c # cs) ''```json''" "\<not> startsWith (c # cs) ''\<newline>```''"
    "\<not> startsWith (c # cs) ''```''"
    using Cons.prems startsWith_set[of "c # cs"] by fastforce+
  then show ?case using Cons by simp
qed

lemma cleaned_plain: "CHR 0x60 \<notin> set text \<Longrightarrow> cleaned text = trim text"
  by (simp add: cleaned_def strip_fences_plain strip_json_fences_plain)

lemma startsWith_append_iff:
  assumes "arr \<noteq> []" and "hd arr \<notin> set pat"
  shows "startsWith (q @ arr) pat \<longleftrightarrow> startsWith q pat"
proof (cases "length pat \<le> length q")
  case True
  then show ?thesis by (simp add: startsWith_def)
next
  case False
  then have l: "length q < length pat" by simp
  have "\<not> startsWith q pat"
  proof
    assume "startsWith q pat"
    then have "length (take (length pat) q) = length pat" by (simp add: startsWith_def)
    then show False using l by simp
  qed
  moreover have "\<not> startsWith (q @ arr) pat"
  proof
    assume "startsWith (q @ arr) pat"
    then have "pat = q @ take (length pat - length q) arr" using l by (simp add: startsWith_def)
    moreover have "hd arr \<in> set (take (length pat - length q) arr)"
      using assms(1) l by (cases arr) (simp_all add: take_Cons')
    ultimately have "hd arr \<in> set pat" by (metis Un_iff set_append)
    then show False using assms(2) by simp
  qed
  ultimately show ?thesis by simp
qed

lemma startsWith_length: "startsWith s p \<Longrightarrow> length p \<le> length s"
proof -
  assume "startsWith s p"
  then have "length (take (length p) s) = length p" by (simp add: startsWith_def)
  then show ?thesis by simp
qed

lemma strip_json_fences_append:
  assumes "arr \<noteq> []" and "hd arr = CHR ''[''"
  shows "strip_json_fences (p @ arr) = strip_json_fences p @ strip_json_fences arr"
proof (induction p rule: strip_json_fences.induct)
  case 1
  then show ?case by simp
next
  case (2 c cs)
  have a: "startsWith ((c # cs) @ arr) pat \<longleftrightarrow> startsWith (c # cs) pat"
    if "CHR ''['' \<notin> set pat" for pat
    using startsWith_append_iff[OF assms(1), of pat "c # cs"] that assms(2) by simp
  have a1: "startsWith (c # cs @ arr) ''```json'' \<longleftrightarrow> startsWith (c # cs) ''```json''"
    using a[of "''```json''"] by simp
  have a2: "startsWith (c # cs @ arr) ''\<newline>```'' \<longleftrightarrow> startsWith (c # cs) ''\<newline>```''"
    using a[of "''\<newline>```''"] by simp
  have a3: "startsWith (c # cs @ arr) ''```'' \<longleftrightarrow> startsWith (c # cs) ''```''"
    using a[of "''```''"] by simp
  consider (tag) "startsWith (c # cs) ''```json''"
    | (nl) "\<not> startsWith (c # cs) ''```json''" "startsWith (c # cs) ''\<newline>```''"
    | (plain) "\<not> startsWith (c # cs) ''```json''" "\<not> startsWith (c # cs) ''\<newline>```''"
        "startsWith (c # cs) ''```''"
    | (none) "\<not> startsWith (c # cs) ''```json''" "\<not> startsWith (c # cs) ''\<newline>```''"
        "\<not> startsWith (c # cs) ''```''"
    by blast
  then show ?case
  proof cases
    case tag
    define r where "r = drop 7 (c # cs)"
    have len: "7 \<le> length (c # cs)" using startsWith_length[OF tag] by simp
    then have d: "drop 7 (c # cs @ arr) = r @ arr" by (simp add: r_def)
    have n: "startsWith (r @ arr) ''\<newline>'' \<longleftrightarrow> startsWith r ''\<newline>''"
      using startsWith_append_iff[OF assms(1), of "''\<newline>''" r] assms(2) by simp
    have dr: "startsWith r ''\<newline>'' \<Longrightarrow> drop 1 (r @ arr) = drop 1 r @ arr"
      using startsWith_length[of r "''\<newline>''"] by simp
    show ?thesis
    proof (cases "startsWith r ''\<newline>''")
      case True
      have "strip_json_fences (drop 1 r @ arr) = strip_json_fences (drop 1 r) @ strip_json_fences arr"
        using "2.IH"(1)[OF tag] True by (simp add: r_def Let_def)
      moreover have "strip_json_fences (c # cs @ arr) = strip_json_fences (drop 1 r @ arr)"
        using tag a1 d n dr True by (simp add: Let_def)
      moreover have "strip_json_fences (c # cs) = strip_json_fences (drop 1 r)"
        using tag True by (simp add: Let_def r_def)
      ultimately show ?thesis by simp
    next
      case False
      have "strip_json_fences (r @ arr) = strip_json_fences r @ strip_json_fences arr"
        using "2.IH"(1)[OF tag] False by (simp add: r_def Let_def)
      moreover have "strip_json_fences (c # cs @ arr) = strip_json_fences (r @ arr)"
        using tag a1 d n False by (simp add: Let_def)
      moreover have "strip_json_fences (c # cs) = strip_json_fences r"
        using tag False by (simp add: Let_def r_def)
      ultimately show ?thesis by simp
    qed
  next
    case nl
    have len: "4 \<le> length (c # cs)" using startsWith_length[OF nl(2)] by simp
    then have d: "drop 4 (c # cs @ arr) = drop 4 (c # cs) @ arr" by simp
    have "strip_json_fences (c # cs @ arr) = strip_json_fences (drop 4 (c # cs) @ arr)"
      using nl a1 a2 d by simp
    moreover have "strip_json_fences (c # cs) = strip_json_fences (drop 4 (c # cs))"
      using nl by simp
    ultimately show ?thesis using "2.IH"(2)[OF nl] by simp
  next
    case plain
    have len: "3 \<le> length (c # cs)" using startsWith_length[OF plain(3)] by simp
    then have d: "drop 3 (c # cs @ arr) = drop 3 (c # cs) @ arr" by simp
    have "strip_json_fences (c # cs @ arr) = strip_json_fences (drop 3 (c # cs) @ arr)"
      using plain a1 a2 a3 d by simp
    moreover have "strip_json_fences (c # cs) = strip_json_fences (drop 3 (c # cs))"
      using plain by simp
    ultimately show ?thesis using "2.IH"(3)[OF plain] by simp
  next
    case none
    have "strip_json_fences (c # cs @ arr) = c # strip_json_fences (cs @ arr)"
      using none a1 a2 a3 by simp
    moreover have "strip_json_fences (c # cs) = c # strip_json_fences cs"
      using none by simp
    ultimately show ?thesis using "2.IH"(4)[OF none] by simp
  qed
qed

lemma strip_fences_append:
  assumes "arr \<noteq> []" and "hd arr = CHR ''[''"
  shows "strip_fences (p @ arr) = strip_fences p @ strip_fences arr"
proof (induction p rule: strip_fences.induct)
  case 1
  then show ?case by simp
next
  case (2 c cs)
  have a3: "startsWith (c # cs @ arr) ''```'' \<longleftrightarrow> startsWith (c # cs) ''```''"
    using startsWith_append_iff[OF assms(1), of "''```''" "c # cs"] assms(2) by simp
  show ?case
  proof (cases "startsWith (c # cs) ''```''")
    case True
    define r where "r = drop 3 (c # cs)"
    have len: "3 \<le> length (c # cs)" using startsWith_length[OF True] by simp
    then have d: "drop 3 (c # cs @ arr) = r @ arr" by (simp add: r_def)
    have n: "startsWith (r @ arr) ''\<newline>'' \<longleftrightarrow> startsWith r ''\<newline>''"
      using startsWith_append_iff[OF assms(1), of "''\<newline>''" r] assms(2) by simp
    have dr: "startsWith r ''\<newline>'' \<Longrightarrow> drop 1 (r @ arr) = drop 1 r @ arr"
      using startsWith_length[of r "''\<newline>''"] by simp
    show ?thesis
    proof (cases "startsWith r ''\<newline>''")
      case nl: True
      have "strip_fences (drop 1 r @ arr) = strip_fences (drop 1 r) @ strip_fences arr"
        using "2.IH"(1)[OF True] nl by (simp add: r_def Let_def)
      moreover have "strip_fences (c # cs @ arr) = strip_fences (drop 1 r @ arr)"
        using True a3 d n dr nl by (simp add: Let_def)
      moreover have "strip_fences (c # cs) = strip_fences (drop 1 r)"
        using True nl by (simp add: Let_def r_def)
      ultimately show ?thesis by simp
    next
      case no: False
      have "strip_fences (r @ arr) = strip_fences r @ strip_fences arr"
        using "2.IH"(1)[OF True] no by (simp add: r_def Let_def)
      moreover have "strip_fences (c # cs @ arr) = strip_fences (r @ arr)"
        using True a3 d n no by (simp add: Let_def)
      moreover have "strip_fences (c # cs) = strip_fences r"
        using True no by (simp add: Let_def r_def)
      ultimately show ?thesis by simp
    qed
  next
    case False
    have "strip_fences (c # cs @ arr) = c # strip_fences (cs @ arr)"
      using False a3 by simp
    moreover have "strip_fences (c # cs) = c # strip_fences cs"
      using False by simp
    ultimately show ?thesis using "2.IH"(2)[OF False] by simp
  qed
qed

lemma set_drop_subset_Cons: "set (drop n (c # cs)) \<subseteq> insert c (set cs)"
  using set_drop_subset[of n "c # cs"] by simp

lemma strip_json_fences_set: "set (strip_json_fences s) \<subseteq> set s"
proof (induction s rule: strip_json_fences.induct)
  case 1
  then show ?case by simp
next
  case (2 c cs)
  have d: "set (drop n (drop m (c # cs))) \<subseteq> set (c # cs)" for n m
    using set_drop_subset[of n "drop m (c # cs)"] set_drop_subset[of m "c # cs"] by blast
  have d1: "set (drop m (c # cs)) \<subseteq> set (c # cs)" for m
    by (rule set_drop_subset)
  consider (tag) "startsWith (c # cs) ''```json''"
    | (nl) "\<not> startsWith (c # cs) ''```json''" "startsWith (c # cs) ''\<newline>```''"
    | (plain) "\<not> startsWith (c # cs) ''```json''" "\<not> startsWith (c # cs) ''\<newline>```''"
        "startsWith (c # cs) ''```''"
    | (none) "\<not> startsWith (c # cs) ''```json''" "\<not> startsWith (c # cs) ''\<newline>```''"
        "\<not> startsWith (c # cs) ''```''"
    by blast
  then show ?case
  proof cases
    case tag
    define r where "r = (let r = drop 7 (c # cs) in if startsWith r ''\<newline>'' then drop 1 r else r)"
    have "set r \<subseteq> set (c # cs)"
      unfolding r_def Let_def using d[of 1 7] d1[of 7] by (simp split: if_splits)
    moreover have "set (strip_json_fences r) \<subseteq> set r"
      using "2.IH"(1)[OF tag] by (simp add: r_def)
    moreover have "strip_json_fences (c # cs) = strip_json_fences r"
      using tag by (simp add: r_def)
    ultimately show ?thesis by (simp only: order_trans)
  next
    case nl
    have e: "strip_json_fences (c # cs) = strip_json_fences (drop 4 (c # cs))" using nl by simp
    show ?thesis unfolding e by (rule order_trans[OF "2.IH"(2)[OF nl] d1[of 4]])
  next
    case plain
    have e: "strip_json_fences (c # cs) = strip_json_fences (drop 3 (c # cs))" using plain by simp
    show ?thesis unfolding e by (rule order_trans[OF "2.IH"(3)[OF plain] d1[of 3]])
  next
    case none
    have e: "strip_json_fences (c # cs) = c # strip_json_fences cs" using none by simp
    show ?thesis unfolding e using "2.IH"(4)[OF none] by auto
  qed
qed

lemma strip_fences_set: "set (strip_fences s) \<subseteq> set s"
proof (induction s rule: strip_fences.induct)
  case 1
  then show ?case by simp
next
  case (2 c cs)
  have d: "set (drop n (drop m (c # cs))) \<subseteq> set (c # cs)" for n m
    using set_drop_subset[of n "drop m (c # cs)"] set_drop_subset[of m "c # cs"] by blast
  have d1: "set (drop m (c # cs)) \<subseteq> set (c # cs)" for m
    by (rule set_drop_subset)
  show ?case
  proof (cases "startsWith (c # cs) ''```''")
    case True
    define r where "r = (let r = drop 3 (c # cs) in if startsWith r ''\<newline>'' then drop 1 r else r)"
    have "set r \<subseteq> set (c # cs)"
      unfolding r_def Let_def using d[of 1 3] d1[of 3] by (simp split: if_splits)
    moreover have "set (strip_fences r) \<subseteq> set r"
      using "2.IH"(1)[OF True] by (simp add: r_def)
    moreover have "strip_fences (c # cs) = strip_fences r"
      using True by (simp add: r_def)
    ultimately show ?thesis by (simp only: order_trans)
  next
    case False
    have e: "strip_fences (c # cs) = c # strip_fences cs" using False by simp
    show ?thesis unfolding e using "2.IH"(2)[OF False] by auto
  qed
qed

lemma strip_json_fences_solid:
  assumes "arr \<noteq> []" and "CHR 0x60 \<notin> set arr" and "last arr \<noteq> CHR ''\<newline>''"
  shows "strip_json_fences (arr @ q) = arr @ strip_json_fences q"
  using assms
proof (induction arr)
  case Nil
  then show ?case by simp
next
  case (Cons c cs)
  have c: "c \<noteq> CHR 0x60" using Cons.prems(2) by auto
  show ?case
  proof (cases cs)
    case Nil
    then have "c \<noteq> CHR ''\<newline>''" using Cons.prems(3) by simp
    then show ?thesis using c Nil by (simp add: startsWith_Cons)
  next
    case (Cons d ds)
    then have d: "d \<noteq> CHR 0x60" using Cons.prems(2) by auto
    have "strip_json_fences (cs @ q) = cs @ strip_json_fences q"
      using Cons.IH Cons.prems Cons by simp
    then show ?thesis using c d Cons by (simp add: startsWith_Cons)
  qed
qed

lemma strip_fences_solid:
  "CHR 0x60 \<notin> set arr \<Longrightarrow> strip_fences (arr @ q) = arr @ strip_fences q"
  by (induction arr) (auto simp: startsWith_Cons)

lemma trim_around_solid:
  assumes "arr \<noteq> []" and "\<not> isWhiteSpace (hd arr)" and "\<not> isWhiteSpace (last arr)"
  shows "trim (x @ arr @ y)
         = dropWhile isWhiteSpace x @ arr @ rev (dropWhile isWhiteSpace (rev y))"
proof -
  have 1: "dropWhile isWhiteSpace (x @ arr @ y) = dropWhile isWhiteSpace x @ arr @ y"
  proof (induction x)
    case Nil
    then show ?case using assms(1,2) by (cases arr) simp_all
  next
    case (Cons a x)
    then show ?case by simp
  qed
  obtain ys where r: "rev arr = last arr # ys"
    using assms(1) by (cases arr rule: rev_cases) simp_all
  have 2: "dropWhile isWhiteSpace (rev y @ rev arr @ z)
           = dropWhile isWhiteSpace (rev y) @ rev arr @ z" for z
  proof (induction "rev y" arbitrary: y)
    case Nil
    then show ?case unfolding r using assms(3) by simp
  next
    case (Cons a w)
    have "rev (butlast y) = w" using Cons(2) by (cases y rule: rev_cases) simp_all
    then show ?case using Cons(1)[of "butlast y"] Cons(2)[symmetric] by simp
  qed
  show ?thesis by (simp add: trim_def 1 2)
qed

lemma bracket_span_around:
  assumes "CHR ''['' \<notin> set p" and "CHR '']'' \<notin> set q"
    and "arr \<noteq> []" and "hd arr = CHR ''[''" and "last arr = CHR '']''"
  shows "bracket_span (p @ arr @ q) = arr"
proof -
  have "dropWhile (\<lambda>c. c \<noteq> CHR ''['') (p @ arr @ q)
        = dropWhile (\<lambda>c. c \<noteq> CHR ''['') (arr @ q)"
    using assms(1) by (intro dropWhile_append2) auto
  also have "\<dots> = arr @ q" using assms(3,4) by (cases arr) simp_all
  finally have 1: "dropWhile (\<lambda>c. c \<noteq> CHR ''['') (p @ arr @ q) = arr @ q" .
  obtain ys where r: "rev arr = CHR '']'' # ys"
    using assms(3,5) by (cases arr rule: rev_cases) simp_all
  have "dropWhile (\<lambda>c. c \<noteq> CHR '']'') (rev q @ rev arr)
        = dropWhile (\<lambda>c. c \<noteq> CHR '']'') (rev arr)"
    using assms(2) by (intro dropWhile_append2) auto
  also have "\<dots> = rev arr" unfolding r by simp
  finally show ?thesis by (simp add: bracket_span_def 1)
qed

lemma bracket_not_ws: "\<not> isWhiteSpace (CHR ''['')" "\<not> isWhiteSpace (CHR '']'')"
  by (simp_all add: isWhiteSpace_def)

lemma cleaned_around_array:
  assumes "arr \<noteq> []" and "hd arr = CHR ''[''" and "last arr = CHR '']''"
    and "CHR 0x60 \<notin> set arr"
  shows "cleaned (p @ arr @ q)
         = dropWhile isWhiteSpace (strip_fences (strip_json_fences p)) @ arr
           @ rev (dropWhile isWhiteSpace (rev (strip_fences (strip_json_fences q))))"
proof -
  have ne: "arr @ q \<noteq> []" and h: "hd (arr @ q) = CHR ''[''"
    using assms(1,2) by simp_all
  have l: "last arr \<noteq> CHR ''\<newline>''" using assms(3) by simp
  have 1: "strip_json_fences (p @ arr @ q)
           = strip_json_fences p @ arr @ strip_json_fences q"
    using strip_json_fences_append[OF ne h, of p]
      strip_json_fences_solid[OF assms(1,4) l, of q] by simp
  have ne2: "arr @ strip_json_fences q \<noteq> []"
    and h2: "hd (arr @ strip_json_fences q) = CHR ''[''"
    using assms(1,2) by simp_all
  have 2: "strip_fences (strip_json_fences p @ arr @ strip_json_fences q)
           = strip_fences (strip_json_fences p) @ arr @ strip_fences (strip_json_fences q)"
    using strip_fences_append[OF ne2 h2, of "strip_json_fences p"]
      strip_fences_solid[OF assms(4), of "strip_json_fences q"] by simp
  have w: "\<not> isWhiteSpace (hd arr)" "\<not> isWhiteSpace (last arr)"
    using assms(2,3) bracket_not_ws by simp_all
  show ?thesis
    unfolding cleaned_def 1 2 by (rule trim_around_solid[OF assms(1) w])
qed

lemma parseJsonArray_around_array:
  assumes "CHR ''['' \<notin> set p" and "CHR '']'' \<notin> set q"
    and "arr \<noteq> []" and "hd arr = CHR ''[''" and "last arr = CHR '']''"
    and "CHR 0x60 \<notin> set arr"
  shows "parseJsonArray (p @ arr @ q)
         = (case JSON_parse arr of None \<Rightarrow> Inl Syntax_error | Some v \<Rightarrow> Inr v)"
proof -
  define p' where "p' = dropWhile isWhiteSpace (strip_fences (strip_json_fences p))"
  define q' where "q' = rev (dropWhile isWhiteSpace (rev (strip_fences (strip_json_fences q))))"
  have c: "cleaned (p @ arr @ q) = p' @ arr @ q'"
    using cleaned_around_array[OF assms(3,4,5,6)] by (simp add: p'_def q'_def)
  have "set p' \<subseteq> set p"
    using set_dropWhileD[of _ isWhiteSpace "strip_fences (strip_json_fences p)"]
      strip_fences_set[of "strip_json_fences p"] strip_json_fences_set[of p]
    unfolding p'_def by blast
  then have np: "CHR ''['' \<notin> set p'" using assms(1) by blast
  have "set q' \<subseteq> set q"
    using set_dropWhileD[of _ isWhiteSpace "rev (strip_fences (strip_json_fences q))"]
      strip_fences_set[of "strip_json_fences q"] strip_json_fences_set[of q]
    unfolding q'_def by auto
  then have nq: "CHR '']'' \<notin> set q'" using assms(2) by blast
  have b: "bracket_span (p' @ arr @ q') = arr"
    using np nq assms(3,4,5) by (rule bracket_span_around)
  have "CHR ''['' \<in> set arr" "CHR '']'' \<in> set arr"
    using assms(3,4,5) hd_in_set[of arr] last_in_set[of arr] by auto
  then show ?thesis by (simp add: parseJsonArray_eq c b)
qed

lemma strip_json_fences_closing:
  "CHR 0x60 \<notin> set b \<Longrightarrow>
   strip_json_fences (b @ ''```'')
     = (if b \<noteq> [] \<and> last b = CHR ''\<newline>'' then butlast b else b)"
proof (induction b)
  case Nil
  then show ?case by (simp add: startsWith_Cons)
next
  case (Cons c cs)
  have c: "c \<noteq> CHR 0x60" using Cons.prems by auto
  show ?case
  proof (cases cs)
    case Nil
    then show ?thesis using c by (simp add: startsWith_Cons)
  next
    case (Cons d ds)
    then have d: "d \<noteq> CHR 0x60" using Cons.prems by auto
    have "strip_json_fences (cs @ ''```'')
          = (if cs \<noteq> [] \<and> last cs = CHR ''\<newline>'' then butlast cs else cs)"
      using Cons.IH Cons.prems by simp
    then show ?thesis using c d Cons by (simp add: startsWith_Cons)
  qed
qed

lemma dropWhile_snoc_ws:
  "isWhiteSpace c \<Longrightarrow>
   dropWhile isWhiteSpace (s @ [c])
     = (if \<forall>x\<in>set s. isWhiteSpace x then [] else dropWhile isWhiteSpace s @ [c])"
  by (induction s) auto

lemma trim_Cons_ws: "isWhiteSpace c \<Longrightarrow> trim (c # s) = trim s"
  by (simp add: trim_def)

lemma trim_snoc_ws:
  assumes "isWhiteSpace c"
  shows "trim (s @ [c]) = trim s"
proof (cases "\<forall>x\<in>set s. isWhiteSpace x")
  case True
  then have e: "dropWhile isWhiteSpace s = []" by simp
  have "dropWhile isWhiteSpace (s @ [c]) = []" using True assms by (simp add: dropWhile_snoc_ws)
  then show ?thesis by (simp add: trim_def e)
next
  case False
  then have "dropWhile isWhiteSpace (s @ [c]) = dropWhile isWhiteSpace s @ [c]"
    using assms by (simp add: dropWhile_snoc_ws)
  then show ?thesis using assms by (simp add: trim_def)
qed

lemma newline_ws: "isWhiteSpace (CHR ''\<newline>'')"
  by (simp add: isWhiteSpace_def)

lemma trim_closing:
  "trim (if b \<noteq> [] \<and> last b = CHR ''\<newline>'' then butlast b else b) = trim b"
proof (cases "b \<noteq> [] \<and> last b = CHR ''\<newline>''")
  case True
  then have "b = butlast b @ [CHR ''\<newline>'']" using append_butlast_last_id[of b] by simp
  then have "trim b = trim (butlast b)" using trim_snoc_ws[OF newline_ws, of "butlast b"] by simp
  then show ?thesis using True by simp
next
  case False
  then show ?thesis by auto
qed

lemma cleaned_closing:
  assumes "CHR 0x60 \<notin> set b"
  shows "trim (strip_fences (strip_json_fences (b @ ''```''))) = trim b"
proof -
  define x where "x = (if b \<noteq> [] \<and> last b = CHR ''\<newline>'' then butlast b else b)"
  have "set x \<subseteq> set b" using in_set_butlastD[of _ b] by (auto simp: x_def)
  then have "CHR 0x60 \<notin> set x" using assms by blast
  then have "strip_fences x = x" by (rule strip_fences_plain)
  moreover have "strip_json_fences (b @ ''```'') = x"
    unfolding x_def using assms by (rule strip_json_fences_closing)
  moreover have "trim x = trim b" unfolding x_def by (rule trim_closing)
  ultimately show ?thesis by simp
qed

lemma cleaned_tagged_fence:
  assumes "CHR 0x60 \<notin> set body"
  shows "cleaned (''```json'' @ body @ ''```'') = trim body"
proof -
  define b where "b = (if startsWith body ''\<newline>'' then drop 1 body else body)"
  have n: "startsWith (body @ ''```'') ''\<newline>'' \<longleftrightarrow> startsWith body ''\<newline>''"
    using startsWith_append_iff[of "''```''" "''\<newline>''" body] by simp
  have d: "startsWith body ''\<newline>'' \<Longrightarrow> drop 1 (body @ ''```'') = drop 1 body @ ''```''"
    using startsWith_length[of body "''\<newline>''"] by simp
  have 1: "strip_json_fences (''```json'' @ body @ ''```'') = strip_json_fences (b @ ''```'')"
    using n d by (simp add: startsWith_Cons b_def Let_def)
  have "set b \<subseteq> set body" using set_drop_subset[of 1 body] by (auto simp: b_def)
  then have nb: "CHR 0x60 \<notin> set b" using assms by blast
  have "trim b = trim body"
  proof (cases body)
    case Nil
    then show ?thesis by (simp add: b_def)
  next
    case (Cons c cs)
    then show ?thesis using trim_Cons_ws[OF newline_ws, of cs]
      by (simp add: b_def startsWith_Cons)
  qed
  then show ?thesis unfolding cleaned_def 1 using cleaned_closing[OF nb] by simp
qed

lemma cleaned_plain_fence:
  assumes "CHR 0x60 \<notin> set body" and "\<not> startsWith body ''json''"
  shows "cleaned (''```'' @ body @ ''```'') = trim body"
proof -
  have "startsWith (body @ ''```'') ''json'' \<longleftrightarrow> startsWith body ''json''"
    using startsWith_append_iff[of "''```''" "''json''" body] by simp
  then have "\<not> startsWith (body @ ''```'') ''json''" using assms(2) by simp
  then have 1: "strip_json_fences (''```'' @ body @ ''```'') = strip_json_fences (body @ ''```'')"
    by (simp add: startsWith_Cons)
  show ?thesis unfolding cleaned_def 1 using assms(1) by (rule cleaned_closing)
qed

section \<open>Properties of the JSON parser\<close>

lemma number_lexeme_nonempty: "number_lexeme s = Some n \<Longrightarrow> n \<noteq> []"
  unfolding number_lexeme_def Let_def
  by (auto split: option.splits list.splits if_splits)

lemma parse_value_Nil: "parse_value [] = None"
  by (simp add: parse_value.simps[of "[]"])

lemma parse_value_Cons:
  "parse_value (c # cs) =
     (if c = CHR ''['' then
        (case skip_ws cs of
           [] \<Rightarrow> None
         | d # r \<Rightarrow> if d = CHR '']'' then Some (JArray [], r)
                    else map_option (\<lambda>(vs, r'). (JArray vs, r')) (parse_elements (d # r)))
      else if c = CHR ''{'' then
        (case skip_ws cs of
           [] \<Rightarrow> None
         | d # r \<Rightarrow> if d = CHR ''}'' then Some (JObject [], r)
                    else map_option (\<lambda>(ms, r'). (JObject ms, r')) (parse_members (d # r)))
      else if c = CHR 0x22 then
        map_option (\<lambda>b. (JString b, drop (Suc (length b)) cs)) (string_lexeme cs)
      else if startsWith (c # cs) ''true'' then Some (JBool True, drop 4 (c # cs))
      else if startsWith (c # cs) ''false'' then Some (JBool False, drop 5 (c # cs))
      else if startsWith (c # cs) ''null'' then Some (JNull, drop 4 (c # cs))
      else map_option (\<lambda>n. (JNumber n, drop (length n) (c # cs))) (number_lexeme (c # cs)))"
  by (subst parse_value.simps) simp

lemma parse_members_Nil: "parse_members [] = None"
  by (simp add: parse_members.simps[of "[]"])

lemma parse_members_Cons:
  "parse_members (q # cs) =
     (if q = CHR 0x22 then
        (case string_lexeme cs of
           None \<Rightarrow> None
         | Some key \<Rightarrow>
            (case skip_ws (drop (Suc (length key)) cs) of
               [] \<Rightarrow> None
             | d # r1 \<Rightarrow>
                if d = CHR '':'' then
                  (case parse_value (skip_ws r1) of
                     None \<Rightarrow> None
                   | Some (v, r2) \<Rightarrow>
                      if length r2 < length (q # cs) then
                        (case skip_ws r2 of
                           [] \<Rightarrow> None
                         | d2 # r3 \<Rightarrow>
                            if d2 = CHR '','' then
                              map_option (\<lambda>(ms, r'). ((key, v) # ms, r')) (parse_members (skip_ws r3))
                            else if d2 = CHR ''}'' then Some ([(key, v)], r3)
                            else None)
                      else None)
                else None))
      else None)"
  by (subst parse_members.simps) simp

lemma parse_shorter:
  "(\<forall>v r. parse_value s = Some (v, r) \<longrightarrow> length r < length s)"
  "(\<forall>vs r. parse_elements s1 = Some (vs, r) \<longrightarrow> length r < length s1)"
  "(\<forall>ms r. parse_members s2 = Some (ms, r) \<longrightarrow> length r < length s2)"
proof (induction s and s1 and s2 rule: parse_value_parse_elements_parse_members.induct)
  case (1 s)
  show ?case
  proof (intro allI impI)
    fix v r
    assume a: "parse_value s = Some (v, r)"
    then obtain c cs where s: "s = c # cs"
      by (cases s) (simp_all add: parse_value_Nil)
    consider (arr) "c = CHR ''[''" | (obj) "c \<noteq> CHR ''[''" "c = CHR ''{''"
      | (other) "c \<noteq> CHR ''[''" "c \<noteq> CHR ''{''" by blast
    then show "length r < length s"
    proof cases
      case arr
      then obtain d r0 where d: "skip_ws cs = d # r0"
        using a s by (cases "skip_ws cs") (simp_all add: parse_value_Cons)
      have l: "length r0 < length cs" using d by (rule skip_ws_Cons)
      show ?thesis
      proof (cases "d = CHR '']''")
        case True
        then show ?thesis using a s arr d l by (simp add: parse_value_Cons)
      next
        case False
        then obtain vs where "parse_elements (d # r0) = Some (vs, r)"
          using a s arr d by (auto simp: parse_value_Cons)
        then have "length r < length (d # r0)"
          using "1.IH"(1)[OF s arr d False] by blast
        then show ?thesis using l s by simp
      qed
    next
      case obj
      then obtain d r0 where d: "skip_ws cs = d # r0"
        using a s by (cases "skip_ws cs") (simp_all add: parse_value_Cons)
      have l: "length r0 < length cs" using d by (rule skip_ws_Cons)
      show ?thesis
      proof (cases "d = CHR ''}''")
        case True
        then show ?thesis using a s obj d l by (simp add: parse_value_Cons)
      next
        case False
        then obtain ms where "parse_members (d # r0) = Some (ms, r)"
          using a s obj d by (auto simp: parse_value_Cons)
        then have "length r < length (d # r0)"
          using "1.IH"(2)[OF s obj d False] by blast
        then show ?thesis using l s by simp
      qed
    next
      case other
      then show ?thesis
        using a s number_lexeme_nonempty[of s]
        by (auto simp: parse_value_Cons split: if_splits)
    qed
  qed
next
  case (2 s)
  show ?case
  proof (intro allI impI)
    fix vs r
    assume a: "parse_elements s = Some (vs, r)"
    then obtain v r0 where v: "parse_value s = Some (v, r0)" and g: "length r0 < length s"
      by (auto simp: parse_elements.simps[of s] split: option.splits if_splits)
    then obtain d r1 where d: "skip_ws r0 = d # r1"
      using a by (cases "skip_ws r0") (simp_all add: parse_elements.simps[of s])
    have l: "length r1 < length r0" using d by (rule skip_ws_Cons)
    show "length r < length s"
    proof (cases "d = CHR '',''")
      case True
      then obtain vs' where "parse_elements (skip_ws r1) = Some (vs', r)"
        using a v g d by (auto simp: parse_elements.simps[of s])
      then have "length r < length (skip_ws r1)"
        using "2.IH"(2)[OF v refl g d True] by blast
      then show ?thesis using skip_ws_length[of r1] l g by simp
    next
      case False
      then show ?thesis
        using a v g d l by (auto simp: parse_elements.simps[of s] split: if_splits)
    qed
  qed
next
  case (3 s)
  show ?case
  proof (intro allI impI)
    fix ms r
    assume a: "parse_members s = Some (ms, r)"
    then obtain q cs where s: "s = q # cs"
      by (cases s) (simp_all add: parse_members_Nil)
    have q: "q = CHR 0x22" using a s by (auto simp: parse_members_Cons split: if_splits)
    obtain key where key: "string_lexeme cs = Some key"
      using a s q by (auto simp: parse_members_Cons split: option.splits)
    obtain d r1 where d: "skip_ws (drop (Suc (length key)) cs) = d # r1"
      using a s q key by (cases "skip_ws (drop (Suc (length key)) cs)")
        (simp_all add: parse_members_Cons)
    have c: "d = CHR '':''"
      using a s q key d by (auto simp: parse_members_Cons split: if_splits)
    obtain v r2 where v: "parse_value (skip_ws r1) = Some (v, r2)" and g: "length r2 < length s"
      using a s q key d c
      by (auto simp: parse_members_Cons split: option.splits if_splits)
    obtain d2 r3 where d2: "skip_ws r2 = d2 # r3"
      using a s q key d c v g by (cases "skip_ws r2") (simp_all add: parse_members_Cons)
    have l: "length r3 < length r2" using d2 by (rule skip_ws_Cons)
    show "length r < length s"
    proof (cases "d2 = CHR '',''")
      case True
      then obtain ms' where "parse_members (skip_ws r3) = Some (ms', r)"
        using a s q key d c v g d2 by (auto simp: parse_members_Cons)
      then have "length r < length (skip_ws r3)"
        using "3.IH"(2)[OF s q key d c v refl _ d2 True] g s by blast
      then show ?thesis using skip_ws_length[of r3] l g by simp
    next
      case False
      then show ?thesis
        using a s q key d c v g d2 l
        by (auto simp: parse_members_Cons split: if_splits)
    qed
  qed
qed

lemma parse_value_shorter: "parse_value s = Some (v, r) \<Longrightarrow> length r < length s"
  using parse_shorter(1) by blast

lemma parse_elements_unguarded:
  "parse_elements s =
     (case parse_value s of
        None \<Rightarrow> None
      | Some (v, r) \<Rightarrow>
         (case skip_ws r of
            [] \<Rightarrow> None
          | d # r1 \<Rightarrow>
             if d = CHR '','' then map_option (\<lambda>(vs, r'). (v # vs, r')) (parse_elements (skip_ws r1))
             else if d = CHR '']'' then Some ([v], r1)
             else None))"
  by (subst parse_elements.simps) (auto split: option.splits dest: parse_value_shorter)

lemma JSON_parse_array:
  assumes "JSON_parse (CHR ''['' # rest) = Some v"
  shows "\<exists>vs. v = JArray vs"
proof -
  have "skip_ws (CHR ''['' # rest) = CHR ''['' # rest"
    by (simp add: skip_ws_def is_json_ws_def)
  then obtain r where "parse_value (CHR ''['' # rest) = Some (v, r)"
    using assms by (auto simp: JSON_parse_def split: option.splits if_splits)
  then show ?thesis
    by (auto simp: parse_value_Cons split: list.splits if_splits)
qed

lemma JSON_parse_Nil: "JSON_parse [] = None"
  by (simp add: JSON_parse_def skip_ws_def parse_value_Nil)

lemma bracket_span_edges:
  assumes "bracket_span s \<noteq> []"
  shows "hd (bracket_span s) = CHR ''['' \<and> last (bracket_span s) = CHR '']''"
proof -
  define t where "t = dropWhile (\<lambda>c. c \<noteq> CHR ''['') s"
  define z where "z = dropWhile (\<lambda>c. c \<noteq> CHR '']'') (rev t)"
  have b: "bracket_span s = rev z" by (simp add: bracket_span_def t_def z_def)
  have z: "z \<noteq> []" using assms b by simp
  then have t: "t \<noteq> []" by (auto simp: z_def)
  have 1: "hd z = CHR '']''" using z hd_dropWhile[of "\<lambda>c. c \<noteq> CHR '']''" "rev t"] by (simp add: z_def)
  have "rev t = takeWhile (\<lambda>c. c \<noteq> CHR '']'') (rev t) @ z" by (simp add: z_def)
  then have "last (rev t) = last z" using z by (metis last_appendR)
  then have "last z = hd t" using t by (simp add: last_rev)
  moreover have "hd t = CHR ''[''" using t hd_dropWhile[of "\<lambda>c. c \<noteq> CHR ''[''" s] by (simp add: t_def)
  ultimately have 2: "last z = CHR ''[''" by simp
  show ?thesis using 1 2 z by (simp add: b hd_rev last_rev)
qed

lemma parseJsonArray_Inr:
  assumes "parseJsonArray text = Inr v"
  shows "JSON_parse (bracket_span (cleaned text)) = Some v \<and> bracket_span (cleaned text) \<noteq> []"
proof -
  have "JSON_parse (bracket_span (cleaned text)) = Some v"
    using assms unfolding parseJsonArray_eq by (auto split: if_splits option.splits)
  moreover from this have "bracket_span (cleaned text) \<noteq> []"
    using JSON_parse_Nil by auto
  ultimately show ?thesis by simp
qed

text \<open>
  C1 (as amended). Line 114 leaves no triple backtick and no surrounding white space; a
  text made of an opening fence, tagged \<^verbatim>\<open>json\<close> or not, a body without backticks and a
  closing fence is reduced to its trimmed body, and a text without backticks is only
  trimmed. \<open>parseJsonArray\<close> throws for a missing array exactly when the cleaned text
  has no \<^verbatim>\<open>[\<close> or no \<^verbatim>\<open>]\<close>; otherwise it parses the span from the first \<^verbatim>\<open>[\<close> to the
  last \<^verbatim>\<open>]\<close> and throws exactly when that span is not a JSON text. For an input made
  of leading text without \<^verbatim>\<open>[\<close>, an array text without backticks and trailing text
  without \<^verbatim>\<open>]\<close>, the text parsed is the array text, whatever fences stand before and
  behind it. The three examples of the specification evaluate as it says.
\<close>

theorem parseJsonArray_spec:
  "(\<nexists>u v. cleaned text = u @ ''```'' @ v)
   \<and> (cleaned text = [] \<or>
       (\<not> isWhiteSpace (hd (cleaned text)) \<and> \<not> isWhiteSpace (last (cleaned text))))
   \<and> (CHR 0x60 \<notin> set text \<longrightarrow>
        cleaned text = trim text
        \<and> cleaned (''```json'' @ text @ ''```'') = trim text
        \<and> (\<not> startsWith text ''json'' \<longrightarrow> cleaned (''```'' @ text @ ''```'') = trim text))
   \<and> parseJsonArray text =
       (if CHR ''['' \<notin> set (cleaned text) \<or> CHR '']'' \<notin> set (cleaned text)
        then Inl Could_not_find_array
        else case JSON_parse (bracket_span (cleaned text)) of
               None \<Rightarrow> Inl Syntax_error
             | Some v \<Rightarrow> Inr v)
   \<and> (CHR ''['' \<notin> set prose \<and> CHR '']'' \<notin> set rest \<and> CHR 0x60 \<notin> set arr
        \<and> arr \<noteq> [] \<and> hd arr = CHR ''['' \<and> last arr = CHR '']'' \<longrightarrow>
        parseJsonArray (prose @ arr @ rest)
          = (case JSON_parse arr of None \<Rightarrow> Inl Syntax_error | Some v \<Rightarrow> Inr v))
   \<and> parseJsonArray ''```json\<newline>[{\"a\":1}]\<newline>```''
       = Inr (JArray [JObject [(''a'', JNumber ''1'')]])
   \<and> parseJsonArray ''I found no businesses.'' = Inl Could_not_find_array
   \<and> parseJsonArray ''Here are the businesses:\<newline>[{\"a\":1}]''
       = Inr (JArray [JObject [(''a'', JNumber ''1'')]])"
proof -
  have 1: "\<nexists>u v. cleaned text = u @ ''```'' @ v"
    using cleaned_no_fence[of "text"] by blast
  have 2: "cleaned text = [] \<or>
       (\<not> isWhiteSpace (hd (cleaned text)) \<and> \<not> isWhiteSpace (last (cleaned text)))"
    unfolding cleaned_def by (rule trim_edges)
  have 3: "CHR 0x60 \<notin> set text \<longrightarrow>
        cleaned text = trim text
        \<and> cleaned (''```json'' @ text @ ''```'') = trim text
        \<and> (\<not> startsWith text ''json'' \<longrightarrow> cleaned (''```'' @ text @ ''```'') = trim text)"
    using cleaned_plain[of "text"] cleaned_tagged_fence[of "text"] cleaned_plain_fence[of "text"]
    by (intro impI conjI)
  have 4: "CHR ''['' \<notin> set prose \<and> CHR '']'' \<notin> set rest \<and> CHR 0x60 \<notin> set arr
        \<and> arr \<noteq> [] \<and> hd arr = CHR ''['' \<and> last arr = CHR '']'' \<longrightarrow>
        parseJsonArray (prose @ arr @ rest)
          = (case JSON_parse arr of None \<Rightarrow> Inl Syntax_error | Some v \<Rightarrow> Inr v)"
    using parseJsonArray_around_array[of prose rest arr] by (intro impI) (elim conjE)
  have 5: "parseJsonArray ''```json\<newline>[{\"a\":1}]\<newline>```''
       = Inr (JArray [JObject [(''a'', JNumber ''1'')]])"
    by code_simp
  have 6: "parseJsonArray ''I found no businesses.'' = Inl Could_not_find_array"
    by code_simp
  have 7: "parseJsonArray ''Here are the businesses:\<newline>[{\"a\":1}]''
       = Inr (JArray [JObject [(''a'', JNumber ''1'')]])"
    by code_simp
  show ?thesis
    by (intro conjI) (rule 1 2 3 parseJsonArray_eq 4 5 6 7)+
qed

theorem parseJsonArray_spec_witness:
  "cleaned ''Sure!\<newline>```\<newline>[1, [2]] trailing'' = ''Sure!\<newline>[1, [2]] trailing''
   \<and> bracket_span ''Sure!\<newline>[1, [2]] trailing'' = ''[1, [2]]''
   \<and> parseJsonArray ''Sure!\<newline>```\<newline>[1, [2]] trailing''
       = Inr (JArray [JNumber ''1'', JArray [JNumber ''2'']])
   \<and> cleaned ''  [1, 2  '' = ''[1, 2''
   \<and> parseJsonArray ''  [1, 2  '' = Inl Could_not_find_array
   \<and> cleaned ''```json\<newline>  [1, 2]  \<newline>\<newline>```'' = ''[1, 2]''
   \<and> cleaned ''```[1, 2]\<newline>```'' = ''[1, 2]''
   \<and> parseJsonArray ''Here are 2:\<newline>```json\<newline>[1, [2]]\<newline>```\<newline>Done.''
       = Inr (JArray [JNumber ''1'', JArray [JNumber ''2'']])
   \<and> cleaned ''Here are 2:\<newline>```json\<newline>[1, [2]]\<newline>```\<newline>Done.''
       = ''Here are 2:json\<newline>[1, [2]]\<newline>Done.''"
proof -
  have c: "cleaned ''Sure!\<newline>```\<newline>[1, [2]] trailing'' = ''Sure!\<newline>[1, [2]] trailing''"
    by code_simp
  have b: "bracket_span ''Sure!\<newline>[1, [2]] trailing'' = ''[1, [2]]''" by code_simp
  have m: "CHR ''['' \<in> set ''Sure!\<newline>[1, [2]] trailing''" "CHR '']'' \<in> set ''Sure!\<newline>[1, [2]] trailing''"
    by simp_all
  have j: "JSON_parse ''[1, [2]]'' = Some (JArray [JNumber ''1'', JArray [JNumber ''2'']])"
    by code_simp
  note t = parseJsonArray_spec[of "''Sure!\<newline>```\<newline>[1, [2]] trailing''",
      THEN conjunct2, THEN conjunct2, THEN conjunct2, THEN conjunct1]
  have 1: "parseJsonArray ''Sure!\<newline>```\<newline>[1, [2]] trailing''
       = Inr (JArray [JNumber ''1'', JArray [JNumber ''2'']])"
    using t m unfolding c b j by simp
  have q: "CHR 0x60 \<notin> set ''  [1, 2  ''" by simp
  have tr: "trim ''  [1, 2  '' = ''[1, 2''" by code_simp
  note p = parseJsonArray_spec[of "''  [1, 2  ''"]
  have c2: "cleaned ''  [1, 2  '' = ''[1, 2''"
    using p[THEN conjunct2, THEN conjunct2, THEN conjunct1, THEN mp, OF q, THEN conjunct1]
    unfolding tr .
  have m2: "CHR '']'' \<notin> set ''[1, 2''" by simp
  have 2: "parseJsonArray ''  [1, 2  '' = Inl Could_not_find_array"
    using p[THEN conjunct2, THEN conjunct2, THEN conjunct2, THEN conjunct1] m2 unfolding c2 by simp
  have q3: "CHR 0x60 \<notin> set ''\<newline>  [1, 2]  \<newline>\<newline>''" by simp
  have tr3: "trim ''\<newline>  [1, 2]  \<newline>\<newline>'' = ''[1, 2]''" by code_simp
  note f = parseJsonArray_spec[of "''\<newline>  [1, 2]  \<newline>\<newline>''",
      THEN conjunct2, THEN conjunct2, THEN conjunct1, THEN mp, OF q3, THEN conjunct2]
  have 3: "cleaned ''```json\<newline>  [1, 2]  \<newline>\<newline>```'' = ''[1, 2]''"
    using f[THEN conjunct1] unfolding tr3 by simp
  have q4: "CHR 0x60 \<notin> set ''[1, 2]\<newline>''" by simp
  have s4: "\<not> startsWith ''[1, 2]\<newline>'' ''json''" by (simp add: startsWith_Cons)
  have tr4: "trim ''[1, 2]\<newline>'' = ''[1, 2]''" by code_simp
  note g = parseJsonArray_spec[of "''[1, 2]\<newline>''",
      THEN conjunct2, THEN conjunct2, THEN conjunct1, THEN mp, OF q4, THEN conjunct2,
      THEN conjunct2, THEN mp, OF s4]
  have 4: "cleaned ''```[1, 2]\<newline>```'' = ''[1, 2]''"
    using g unfolding tr4 by simp
  have h: "CHR ''['' \<notin> set ''Here are 2:\<newline>```json\<newline>'' \<and> CHR '']'' \<notin> set ''\<newline>```\<newline>Done.''
        \<and> CHR 0x60 \<notin> set ''[1, [2]]''
        \<and> ''[1, [2]]'' \<noteq> [] \<and> hd ''[1, [2]]'' = CHR ''['' \<and> last ''[1, [2]]'' = CHR '']''"
    by simp
  note r = parseJsonArray_spec[of _ "''Here are 2:\<newline>```json\<newline>''"
      "''\<newline>```\<newline>Done.''" "''[1, [2]]''",
      THEN conjunct2, THEN conjunct2, THEN conjunct2, THEN conjunct2, THEN conjunct1,
      THEN mp, OF h]
  have 5: "parseJsonArray ''Here are 2:\<newline>```json\<newline>[1, [2]]\<newline>```\<newline>Done.''
       = Inr (JArray [JNumber ''1'', JArray [JNumber ''2'']])"
    using r unfolding j by simp
  have 6: "cleaned ''Here are 2:\<newline>```json\<newline>[1, [2]]\<newline>```\<newline>Done.''
       = ''Here are 2:json\<newline>[1, [2]]\<newline>Done.''"
    by code_simp
  show ?thesis by (intro conjI) (rule c b 1 c2 2 3 4 5 6)+
qed

text \<open>
  C1 as stated fails: the claim has every input with leading prose followed by a valid
  array recover the array. Line 115 takes the first \<^verbatim>\<open>[\<close> of the whole text, so prose that
  holds a \<^verbatim>\<open>[\<close> of its own moves the start of the span: the span of
  \<^verbatim>\<open>See [1]: [2]\<close> is \<^verbatim>\<open>[1]: [2]\<close>, which is no JSON text, although the array \<^verbatim>\<open>[2]\<close>
  behind the prose is valid.
\<close>

theorem parseJsonArray_prose_counterexample:
  "parseJsonArray ''See [1]: [2]'' = Inl Syntax_error
   \<and> bracket_span (cleaned ''See [1]: [2]'') = ''[1]: [2]''
   \<and> JSON_parse ''[2]'' = Some (JArray [JNumber ''2''])
   \<and> parseJsonArray ''Here are 3 businesses [source: web]:\<newline>[{\"a\":1}]'' = Inl Syntax_error
   \<and> JSON_parse ''[{\"a\":1}]'' = Some (JArray [JObject [(''a'', JNumber ''1'')]])"
  by code_simp

text \<open>
  C9. Whenever \<open>parseJsonArray\<close> returns, the value is a JSON array: the span it parsed
  is not empty, begins with \<^verbatim>\<open>[\<close> and ends with \<^verbatim>\<open>]\<close>, and a JSON text that begins with
  \<^verbatim>\<open>[\<close> is an array.
\<close>

theorem parseJsonArray_returns_array:
  assumes "parseJsonArray text = Inr v"
  shows "(\<exists>vs. v = JArray vs)
         \<and> bracket_span (cleaned text) \<noteq> []
         \<and> hd (bracket_span (cleaned text)) = CHR ''[''
         \<and> last (bracket_span (cleaned text)) = CHR '']''
         \<and> JSON_parse (bracket_span (cleaned text)) = Some v"
proof -
  note r = parseJsonArray_Inr[OF assms]
  then have ne: "bracket_span (cleaned text) \<noteq> []" by simp
  note e = bracket_span_edges[OF ne]
  obtain rest where "bracket_span (cleaned text) = CHR ''['' # rest"
    using ne e by (cases "bracket_span (cleaned text)") auto
  then have "\<exists>vs. v = JArray vs" using r JSON_parse_array by auto
  then show ?thesis using r e by simp
qed

theorem parseJsonArray_returns_array_witness:
  "parseJsonArray ''The list: [\"x\", {\"k\": null}] (2 items)''
     = Inr (JArray [JString ''x'', JObject [(''k'', JNull)]])
   \<and> bracket_span (cleaned ''The list: [\"x\", {\"k\": null}] (2 items)'') = ''[\"x\", {\"k\": null}]''
   \<and> (\<exists>vs. JArray [JString ''x'', JObject [(''k'', JNull)]] = JArray vs)
   \<and> hd (bracket_span (cleaned ''The list: [\"x\", {\"k\": null}] (2 items)'')) = CHR ''[''"
proof -
  have a: "parseJsonArray ''The list: [\"x\", {\"k\": null}] (2 items)''
     = Inr (JArray [JString ''x'', JObject [(''k'', JNull)]])"
    by code_simp
  have b: "bracket_span (cleaned ''The list: [\"x\", {\"k\": null}] (2 items)'') = ''[\"x\", {\"k\": null}]''"
    by code_simp
  note t = parseJsonArray_returns_array[OF a]
  show ?thesis
    by (intro conjI) (rule a b t[THEN conjunct1] t[THEN conjunct2, THEN conjunct2, THEN conjunct1])+
qed


lemma parse_members_unguarded:
  "parse_members (q # cs) =
     (if q = CHR 0x22 then
        (case string_lexeme cs of
           None \<Rightarrow> None
         | Some key \<Rightarrow>
            (case skip_ws (drop (Suc (length key)) cs) of
               [] \<Rightarrow> None
             | d # r1 \<Rightarrow>
                if d = CHR '':'' then
                  (case parse_value (skip_ws r1) of
                     None \<Rightarrow> None
                   | Some (v, r2) \<Rightarrow>
                      (case skip_ws r2 of
                         [] \<Rightarrow> None
                       | d2 # r3 \<Rightarrow>
                          if d2 = CHR '','' then
                            map_option (\<lambda>(ms, r'). ((key, v) # ms, r')) (parse_members (skip_ws r3))
                          else if d2 = CHR ''}'' then Some ([(key, v)], r3)
                          else None))
                else None))
      else None)"
proof -
  have g: "length r2 < Suc (length cs)"
    if "skip_ws (drop (Suc (length key)) cs) = d # r1" and "parse_value (skip_ws r1) = Some (v, r2)"
    for key d r1 v r2
  proof -
    have "length r2 < length (skip_ws r1)" using that(2) by (rule parse_value_shorter)
    moreover have "length r1 < length (drop (Suc (length key)) cs)" using that(1) by (rule skip_ws_Cons)
    ultimately show ?thesis using skip_ws_length[of r1] by simp
  qed
  show ?thesis
    by (subst parse_members_Cons) (auto split: option.splits list.splits dest: g)
qed

section \<open>Properties of the discovery driver\<close>

lemma tool_results_eq:
  "map (\<lambda>b. Tool_result (block_id b) c) (filter is_tool_use content)
   = map (\<lambda>i. Tool_result i c) (tool_use_ids content)"
  by (induction content rule: tool_use_ids.induct) simp_all

lemma tool_use_ids_Nil: "tool_use_ids content = [] \<longleftrightarrow> filter is_tool_use content = []"
  by (induction content rule: tool_use_ids.induct) simp_all

lemma length_tool_use_ids: "length (tool_use_ids content) = length (filter is_tool_use content)"
  by (induction content rule: tool_use_ids.induct) simp_all

lemma incomplete_code:
  "incomplete content \<longleftrightarrow> list_ex is_tool_use content \<or> find is_text content = None"
  by (auto simp: incomplete_def list_ex_iff find_None_iff)

lemma messages2_eq:
  "(if 0 < length (map (\<lambda>b. Tool_result (block_id b) ''Search results retrieved.'')
                       (filter is_tool_use content))
    then ms @ [User_tool_results (map (\<lambda>b. Tool_result (block_id b) ''Search results retrieved.'')
                       (filter is_tool_use content))]
    else ms)
   = ms @ acknowledgments content"
  by (simp add: acknowledgments_def tool_results_eq tool_use_ids_Nil)

lemma prompts_differ: "follow_up_prompt c \<noteq> search_prompt c"
  by (simp add: follow_up_prompt_def search_prompt_def)

text \<open>
  C8 (as amended). The driver takes the first response for incomplete exactly when it
  holds a tool invocation or no plain text. Then it issues a second request, without
  tools, whose messages are the follow-up text of line 80 (a restatement of the request,
  about 1000 code units shorter than the user turn of the first request and different
  from it), the first response, and, when there is a tool invocation, one user message
  with one acknowledgment for each of them; it parses the first text of the second
  response. Otherwise it issues no second request and parses the first text of the
  first response. Either text goes through \<open>parseJsonArray\<close>.
\<close>

theorem discovery_driver_spec:
  "(create \<lparr>req_max_tokens = 8000, req_tools = True, req_system = Researcher_system country,
             req_messages = [User_text (search_prompt country)]\<rparr> = Some content \<and>
    incomplete content \<longrightarrow>
      (\<exists>request2.
         snd (searchSMEsWithWebSearch create country)
           = [\<lparr>req_max_tokens = 8000, req_tools = True, req_system = Researcher_system country,
                req_messages = [User_text (search_prompt country)]\<rparr>, request2]
         \<and> req_messages request2
             = [User_text (follow_up_prompt country), Assistant_content content]
               @ acknowledgments content
         \<and> req_system request2 = Final_answer_system country \<and> \<not> req_tools request2
         \<and> req_max_tokens request2 = 8000
         \<and> fst (searchSMEsWithWebSearch create country)
             = (case create request2 of
                  None \<Rightarrow> Inl Provider_error
                | Some finalContent \<Rightarrow> parseJsonArray (first_text finalContent))))
   \<and> (create \<lparr>req_max_tokens = 8000, req_tools = True, req_system = Researcher_system country,
                req_messages = [User_text (search_prompt country)]\<rparr> = Some content \<and>
       \<not> incomplete content \<longrightarrow>
         searchSMEsWithWebSearch create country
           = (parseJsonArray (first_text content),
              [\<lparr>req_max_tokens = 8000, req_tools = True, req_system = Researcher_system country,
                 req_messages = [User_text (search_prompt country)]\<rparr>]))
   \<and> (create \<lparr>req_max_tokens = 8000, req_tools = True, req_system = Researcher_system country,
                req_messages = [User_text (search_prompt country)]\<rparr> = None \<longrightarrow>
         searchSMEsWithWebSearch create country
           = (Inl Provider_error,
              [\<lparr>req_max_tokens = 8000, req_tools = True, req_system = Researcher_system country,
                 req_messages = [User_text (search_prompt country)]\<rparr>]))
   \<and> acknowledgments content
       = (if filter is_tool_use content = [] then []
          else [User_tool_results
                  (map (\<lambda>b. Tool_result (block_id b) ''Search results retrieved.'')
                     (filter is_tool_use content))])
   \<and> follow_up_prompt country \<noteq> search_prompt country
   \<and> length (follow_up_prompt country) = 292 + 4 * length country
   \<and> length (search_prompt country) = 1356 + 6 * length country
   \<and> User_text (search_prompt country)
       \<notin> set ([User_text (follow_up_prompt country), Assistant_content content]
                @ acknowledgments content)"
proof -
  define r1 where "r1 = \<lparr>req_max_tokens = 8000, req_tools = True,
                          req_system = Researcher_system country,
                          req_messages = [User_text (search_prompt country)]\<rparr>"
  define r2 where "r2 = \<lparr>req_max_tokens = 8000, req_tools = False,
                          req_system = Final_answer_system country,
                          req_messages = [User_text (follow_up_prompt country), Assistant_content content]
                                         @ acknowledgments content\<rparr>"
  have run: "searchSMEsWithWebSearch create country =
      (case create r1 of
         None \<Rightarrow> (Inl Provider_error, [r1])
       | Some content \<Rightarrow>
           if incomplete content then
             (case create \<lparr>req_max_tokens = 8000, req_tools = False,
                           req_system = Final_answer_system country,
                           req_messages = [User_text (follow_up_prompt country), Assistant_content content]
                                          @ acknowledgments content\<rparr> of
                None \<Rightarrow> (Inl Provider_error,
                          [r1, \<lparr>req_max_tokens = 8000, req_tools = False,
                                req_system = Final_answer_system country,
                                req_messages = [User_text (follow_up_prompt country), Assistant_content content]
                                               @ acknowledgments content\<rparr>])
              | Some finalContent \<Rightarrow>
                  (parseJsonArray (first_text finalContent),
                   [r1, \<lparr>req_max_tokens = 8000, req_tools = False,
                         req_system = Final_answer_system country,
                         req_messages = [User_text (follow_up_prompt country), Assistant_content content]
                                        @ acknowledgments content\<rparr>]))
           else (parseJsonArray (first_text content), [r1]))"
    unfolding searchSMEsWithWebSearch_def Let_def messages2_eq incomplete_code r1_def ..
  have 1: "\<exists>request2.
         snd (searchSMEsWithWebSearch create country) = [r1, request2]
         \<and> req_messages request2
             = [User_text (follow_up_prompt country), Assistant_content content]
               @ acknowledgments content
         \<and> req_system request2 = Final_answer_system country \<and> \<not> req_tools request2
         \<and> req_max_tokens request2 = 8000
         \<and> fst (searchSMEsWithWebSearch create country)
             = (case create request2 of
                  None \<Rightarrow> Inl Provider_error
                | Some finalContent \<Rightarrow> parseJsonArray (first_text finalContent))"
    if "create r1 = Some content" "incomplete content"
  proof (intro exI[of _ r2] conjI)
    show "snd (searchSMEsWithWebSearch create country) = [r1, r2]"
      using that by (simp add: run r2_def split: option.splits)
    show "fst (searchSMEsWithWebSearch create country)
             = (case create r2 of
                  None \<Rightarrow> Inl Provider_error
                | Some finalContent \<Rightarrow> parseJsonArray (first_text finalContent))"
      using that by (simp add: run r2_def split: option.splits)
  qed (simp_all add: r2_def)
  have 2: "searchSMEsWithWebSearch create country = (parseJsonArray (first_text content), [r1])"
    if "create r1 = Some content" "\<not> incomplete content"
    using that by (simp add: run)
  have 3: "searchSMEsWithWebSearch create country = (Inl Provider_error, [r1])"
    if "create r1 = None"
    using that by (simp add: run)
  have 4: "acknowledgments content
       = (if filter is_tool_use content = [] then []
          else [User_tool_results
                  (map (\<lambda>b. Tool_result (block_id b) ''Search results retrieved.'')
                     (filter is_tool_use content))])"
    by (simp add: acknowledgments_def tool_results_eq tool_use_ids_Nil)
  have 5: "follow_up_prompt country \<noteq> search_prompt country" by (rule prompts_differ)
  have 6: "User_text (search_prompt country)
       \<notin> set ([User_text (follow_up_prompt country), Assistant_content content]
                @ acknowledgments content)"
    using 5 by (auto simp: acknowledgments_def)
  have 7: "length (follow_up_prompt country) = 292 + 4 * length country"
    by (simp add: follow_up_prompt_def)
  have 8: "length (search_prompt country) = 1356 + 6 * length country"
    by (simp add: search_prompt_def)
  show ?thesis
    using 1 2 3 4 5 6 7 8 unfolding r1_def by (intro conjI impI; (elim conjE)?) blast+
qed

theorem discovery_driver_spec_witness:
  "fst (searchSMEsWithWebSearch
     (\<lambda>r. if req_tools r
          then Some [Tool_use_block ''toolu_1'', Text_block ''Let me search.'', Tool_use_block ''toolu_2'']
          else if req_messages r =
                    [User_text (follow_up_prompt ''Armenia''),
                     Assistant_content [Tool_use_block ''toolu_1'', Text_block ''Let me search.'',
                                        Tool_use_block ''toolu_2''],
                     User_tool_results [Tool_result ''toolu_1'' ''Search results retrieved.'',
                                        Tool_result ''toolu_2'' ''Search results retrieved.'']]
          then Some [Text_block ''[{\"name\":\"Anna Bakes\"}]''] else None)
     ''Armenia'')
   = Inr (JArray [JObject [(''name'', JString ''Anna Bakes'')]])
   \<and> (\<exists>request2.
         snd (searchSMEsWithWebSearch
           (\<lambda>r. if req_tools r
                then Some [Tool_use_block ''toolu_1'', Text_block ''Let me search.'', Tool_use_block ''toolu_2'']
                else if req_messages r =
                    [User_text (follow_up_prompt ''Armenia''),
                     Assistant_content [Tool_use_block ''toolu_1'', Text_block ''Let me search.'',
                                        Tool_use_block ''toolu_2''],
                     User_tool_results [Tool_result ''toolu_1'' ''Search results retrieved.'',
                                        Tool_result ''toolu_2'' ''Search results retrieved.'']]
                then Some [Text_block ''[{\"name\":\"Anna Bakes\"}]''] else None)
           ''Armenia'')
           = [\<lparr>req_max_tokens = 8000, req_tools = True, req_system = Researcher_system ''Armenia'',
                req_messages = [User_text (search_prompt ''Armenia'')]\<rparr>, request2]
         \<and> req_messages request2
             = [User_text (follow_up_prompt ''Armenia''),
                Assistant_content [Tool_use_block ''toolu_1'', Text_block ''Let me search.'',
                                   Tool_use_block ''toolu_2'']]
               @ acknowledgments [Tool_use_block ''toolu_1'', Text_block ''Let me search.'',
                                  Tool_use_block ''toolu_2''])
   \<and> acknowledgments [Tool_use_block ''toolu_1'', Text_block ''Let me search.'', Tool_use_block ''toolu_2'']
       = [User_tool_results [Tool_result ''toolu_1'' ''Search results retrieved.'',
                             Tool_result ''toolu_2'' ''Search results retrieved.'']]
   \<and> follow_up_prompt ''Armenia''
       = ''Search for real small businesses in Armenia that operate only on social media (Facebook, Instagram) without a website. Search for: \"Armenia small business facebook page handmade\", \"Armenia local shop instagram seller\", \"Armenia homemade food clothing crafts facebook\". Find 8-10 businesses then return ONLY a JSON array.''
   \<and> length (search_prompt ''Armenia'') = 1398
   \<and> searchSMEsWithWebSearch (\<lambda>r. Some [Text_block ''Found: [1]'']) ''Armenia''
       = (Inr (JArray [JNumber ''1'']),
          [\<lparr>req_max_tokens = 8000, req_tools = True, req_system = Researcher_system ''Armenia'',
             req_messages = [User_text (search_prompt ''Armenia'')]\<rparr>])"
proof -
  let ?content = "[Tool_use_block ''toolu_1'', Text_block ''Let me search.'', Tool_use_block ''toolu_2'']"
  let ?create = "\<lambda>r. if req_tools r
          then Some ?content
          else if req_messages r =
                    [User_text (follow_up_prompt ''Armenia''),
                     Assistant_content [Tool_use_block ''toolu_1'', Text_block ''Let me search.'',
                                        Tool_use_block ''toolu_2''],
                     User_tool_results [Tool_result ''toolu_1'' ''Search results retrieved.'',
                                        Tool_result ''toolu_2'' ''Search results retrieved.'']]
          then Some [Text_block ''[{\"name\":\"Anna Bakes\"}]''] else None"
  have a: "fst (searchSMEsWithWebSearch ?create ''Armenia'')
           = Inr (JArray [JObject [(''name'', JString ''Anna Bakes'')]])"
    by code_simp
  have h: "?create \<lparr>req_max_tokens = 8000, req_tools = True, req_system = Researcher_system ''Armenia'',
             req_messages = [User_text (search_prompt ''Armenia'')]\<rparr> = Some ?content \<and>
           incomplete ?content"
    by (simp add: incomplete_def)
  note t = discovery_driver_spec[of ?create "''Armenia''" ?content]
  from mp[OF t[THEN conjunct1] h] obtain request2 where
    r: "snd (searchSMEsWithWebSearch ?create ''Armenia'')
           = [\<lparr>req_max_tokens = 8000, req_tools = True, req_system = Researcher_system ''Armenia'',
                req_messages = [User_text (search_prompt ''Armenia'')]\<rparr>, request2]"
       "req_messages request2
             = [User_text (follow_up_prompt ''Armenia''), Assistant_content ?content]
               @ acknowledgments ?content"
    by (elim exE conjE)
  have b: "\<exists>request2.
         snd (searchSMEsWithWebSearch ?create ''Armenia'')
           = [\<lparr>req_max_tokens = 8000, req_tools = True, req_system = Researcher_system ''Armenia'',
                req_messages = [User_text (search_prompt ''Armenia'')]\<rparr>, request2]
         \<and> req_messages request2
             = [User_text (follow_up_prompt ''Armenia''), Assistant_content ?content]
               @ acknowledgments ?content"
    using r by (intro exI[of _ request2] conjI)
  have c: "acknowledgments ?content
       = [User_tool_results [Tool_result ''toolu_1'' ''Search results retrieved.'',
                             Tool_result ''toolu_2'' ''Search results retrieved.'']]"
    by code_simp
  have d: "follow_up_prompt ''Armenia''
       = ''Search for real small businesses in Armenia that operate only on social media (Facebook, Instagram) without a website. Search for: \"Armenia small business facebook page handmade\", \"Armenia local shop instagram seller\", \"Armenia homemade food clothing crafts facebook\". Find 8-10 businesses then return ONLY a JSON array.''"
    by code_simp
  have e: "length (search_prompt ''Armenia'') = 1398" by code_simp
  have f: "searchSMEsWithWebSearch (\<lambda>r. Some [Text_block ''Found: [1]'']) ''Armenia''
       = (Inr (JArray [JNumber ''1'']),
          [\<lparr>req_max_tokens = 8000, req_tools = True, req_system = Researcher_system ''Armenia'',
             req_messages = [User_text (search_prompt ''Armenia'')]\<rparr>])"
    by code_simp
  show ?thesis by (intro conjI) (rule a b c d e f)+
qed

text \<open>
  C8 as stated fails: the second request does not carry the conversation so far. Its
  user turn is the text of line 80, and the user turn of the first request is not among
  its messages.
\<close>

theorem discovery_driver_conversation_counterexample:
  "snd (searchSMEsWithWebSearch
          (\<lambda>r. if req_tools r then Some [Tool_use_block ''toolu_1''] else Some [Text_block ''[]''])
          ''Armenia'')
     = [\<lparr>req_max_tokens = 8000, req_tools = True, req_system = Researcher_system ''Armenia'',
          req_messages = [User_text (search_prompt ''Armenia'')]\<rparr>,
        \<lparr>req_max_tokens = 8000, req_tools = False, req_system = Final_answer_system ''Armenia'',
          req_messages = [User_text (follow_up_prompt ''Armenia''),
                          Assistant_content [Tool_use_block ''toolu_1''],
                          User_tool_results [Tool_result ''toolu_1'' ''Search results retrieved.'']]\<rparr>]
   \<and> follow_up_prompt ''Armenia'' \<noteq> search_prompt ''Armenia''
   \<and> length (follow_up_prompt ''Armenia'') = 320
   \<and> User_text (search_prompt ''Armenia'')
       \<notin> set [User_text (follow_up_prompt ''Armenia''),
                Assistant_content [Tool_use_block ''toolu_1''],
                User_tool_results [Tool_result ''toolu_1'' ''Search results retrieved.'']]"
  by code_simp

end
